theory Spec2Isabelle
  imports Main
begin

section \<open>JavaScript values and array primitives\<close>

text \<open>
  The program is the TypeScript module \<^verbatim>\<open>src/models.ts\<close>: a class \<^verbatim>\<open>Events\<close> and its two
  subclasses \<^verbatim>\<open>Model\<close> and \<^verbatim>\<open>Collection\<close>. Objects live in a store and are named by
  references; the values a field can hold are the primitives below and references.
  \<^verbatim>\<open>Num\<close> stands for the integers a JavaScript number represents exactly. Property names
  that every JavaScript object inherits (such as \<^verbatim>\<open>toString\<close>) are not used as field
  names, as event names or as primary keys.
\<close>

type_synonym ref = nat

datatype val = Undefined | Str string | Num int | Ref ref

datatype error = TypeError | RangeError

text \<open>What \<^verbatim>\<open>a || b\<close> and \<^verbatim>\<open>if (a)\<close> test.\<close>

fun truthy :: "val \<Rightarrow> bool" where
  "truthy Undefined = False"
| "truthy (Str s) = (s \<noteq> [])"
| "truthy (Num n) = (n \<noteq> 0)"
| "truthy (Ref r) = True"

function decimal :: "nat \<Rightarrow> string" where
  "decimal n = (if n < 10 then [char_of (48 + n)]
                else decimal (n div 10) @ [char_of (48 + n mod 10)])"
  by pat_completeness auto
termination
  by (relation "measure id") auto

declare decimal.simps [simp del]

text \<open>The string under which a value indexes an object, as in \<^verbatim>\<open>this.modelMap[model.pk]\<close>.\<close>

fun toPropertyKey :: "val \<Rightarrow> string" where
  "toPropertyKey Undefined = ''undefined''"
| "toPropertyKey (Str s) = s"
| "toPropertyKey (Num n) = (if n < 0 then CHR ''-'' # decimal (nat (- n)) else decimal (nat n))"
| "toPropertyKey (Ref r) = ''[object Object]''"

text \<open>\<^verbatim>\<open>Array.prototype.indexOf\<close>: the first position of the element, or \<open>-1\<close>.\<close>

fun indexOf :: "'a list \<Rightarrow> 'a \<Rightarrow> int" where
  "indexOf [] x = - 1"
| "indexOf (y # ys) x =
     (if y = x then 0 else (let r = indexOf ys x in if r < 0 then - 1 else r + 1))"

text \<open>
  \<^verbatim>\<open>Array.prototype.splice(start, deleteCount, ...items)\<close>, returning the array as it is
  afterwards. A negative \<open>start\<close> counts from the end of the array.
\<close>

definition splice :: "'a list \<Rightarrow> int \<Rightarrow> int \<Rightarrow> 'a list \<Rightarrow> 'a list" where
  "splice xs start deleteCount items =
     (let len = int (length xs);
          actualStart = (if start < 0 then max (len + start) 0 else min start len);
          actualDeleteCount = min (max deleteCount 0) (len - actualStart)
      in take (nat actualStart) xs @ items @ drop (nat (actualStart + actualDeleteCount)) xs)"

definition andThen :: "error + 'a \<Rightarrow> ('a \<Rightarrow> error + 'b) \<Rightarrow> error + 'b" where
  "andThen r f = (case r of Inl e \<Rightarrow> Inl e | Inr x \<Rightarrow> f x)"

section \<open>The classes as records\<close>

text \<open>
  A callback is a closure of the source. \<^verbatim>\<open>ModelChange this property\<close> is the arrow
  function \<^verbatim>\<open>Model.set\<close> registers on an \<^verbatim>\<open>Events\<close> value,
  \<^verbatim>\<open>CollectionChange this model\<close> and \<^verbatim>\<open>CollectionChangePK this\<close> are the two that
  \<^verbatim>\<open>Collection.add\<close> registers on a model. \<^verbatim>\<open>Spy k\<close> is a callback of the caller that
  only records that it ran (a test spy).
\<close>

datatype callback =
    Spy nat
  | ModelChange ref string
  | CollectionChange ref ref
  | CollectionChangePK ref

record Events =
  eventIndex :: nat
  map_e :: "string \<rightharpoonup> nat list"
  events :: "nat \<rightharpoonup> callback"

record Model =
  fieldsM :: "string \<rightharpoonup> val"
  mappedEvents :: "string \<rightharpoonup> nat list"
  persisted :: "string \<rightharpoonup> val"
  clean :: bool

record ModelMeta =
  index :: nat
  change :: nat
  changePK :: nat

text \<open>
  \<^verbatim>\<open>modelMap\<close> maps a key to a \<^verbatim>\<open>ModelMeta\<close> object, and \<^verbatim>\<open>rebuildMap\<close> writes to such
  objects through a second map: the objects are kept in \<open>metas\<close>, a store of the
  collection's own, and \<open>modelMap\<close> holds their addresses.
\<close>

record Collection =
  modelMap :: "string \<rightharpoonup> nat"
  metas :: "nat \<rightharpoonup> ModelMeta"
  nextMeta :: nat
  models :: "ref list"
  persistedC :: "val list"
  cleanC :: bool

datatype body = PlainB | ModelB Model | CollectionB Collection

record obj =
  ev :: Events
  body :: body

text \<open>
  The store. \<open>fired\<close> and \<open>calls\<close> are history variables: every call of \<^verbatim>\<open>trigger\<close>
  appends the object and the event name to \<open>fired\<close>, every run of a spy appends its
  number to \<open>calls\<close>.
\<close>

record heap =
  objs :: "ref \<rightharpoonup> obj"
  nextRef :: ref
  fired :: "(ref \<times> string) list"
  calls :: "nat list"

definition getModel :: "heap \<Rightarrow> ref \<Rightarrow> error + Model" where
  "getModel h r =
     (case objs h r of None \<Rightarrow> Inl TypeError
      | Some ob \<Rightarrow> (case body ob of ModelB M \<Rightarrow> Inr M | _ \<Rightarrow> Inl TypeError))"

definition getCollection :: "heap \<Rightarrow> ref \<Rightarrow> error + Collection" where
  "getCollection h r =
     (case objs h r of None \<Rightarrow> Inl TypeError
      | Some ob \<Rightarrow> (case body ob of CollectionB C \<Rightarrow> Inr C | _ \<Rightarrow> Inl TypeError))"

definition putBody :: "heap \<Rightarrow> ref \<Rightarrow> body \<Rightarrow> heap" where
  "putBody h r b =
     (case objs h r of None \<Rightarrow> h
      | Some ob \<Rightarrow> h\<lparr>objs := (objs h)(r \<mapsto> ob\<lparr>body := b\<rparr>)\<rparr>)"

section \<open>Events\<close>

definition emptyEvents :: Events where
  "emptyEvents = \<lparr>eventIndex = 0, map_e = Map.empty, events = Map.empty\<rparr>"

definition Events_on :: "Events \<Rightarrow> string \<Rightarrow> callback \<Rightarrow> Events \<times> nat" where
  "Events_on this name func =
     (let evts = (case map_e this name of None \<Rightarrow> [] | Some l \<Rightarrow> l);
          i = eventIndex this + 1
      in (this\<lparr>eventIndex := i,
               map_e := (map_e this)(name \<mapsto> evts @ [i]),
               events := (events this)(i \<mapsto> func)\<rparr>, i))"

definition Events_off :: "Events \<Rightarrow> string \<Rightarrow> nat \<Rightarrow> Events" where
  "Events_off this name i =
     (case map_e this name of None \<Rightarrow> this
      | Some evts \<Rightarrow>
          this\<lparr>map_e := (map_e this)(name \<mapsto> splice evts (indexOf evts i) 1 []),
               events := (events this)(i := None)\<rparr>)"

text \<open>The two methods on an object of the store.\<close>

definition on_at :: "heap \<Rightarrow> ref \<Rightarrow> string \<Rightarrow> callback \<Rightarrow> error + (heap \<times> nat)" where
  "on_at h r name func =
     (case objs h r of None \<Rightarrow> Inl TypeError
      | Some ob \<Rightarrow>
          (let (E, i) = Events_on (ev ob) name func
           in Inr (h\<lparr>objs := (objs h)(r \<mapsto> ob\<lparr>ev := E\<rparr>)\<rparr>, i)))"

definition off_at :: "heap \<Rightarrow> ref \<Rightarrow> string \<Rightarrow> nat \<Rightarrow> error + heap" where
  "off_at h r name i =
     (case objs h r of None \<Rightarrow> Inl TypeError
      | Some ob \<Rightarrow> Inr (h\<lparr>objs := (objs h)(r \<mapsto> ob\<lparr>ev := Events_off (ev ob) name i\<rparr>)\<rparr>))"

text \<open>\<^verbatim>\<open>model.pk\<close> and \<^verbatim>\<open>model.persisted['pk']\<close>, read off whatever object the reference names.\<close>

definition pk :: "heap \<Rightarrow> ref \<Rightarrow> error + val" where
  "pk h m =
     (case objs h m of None \<Rightarrow> Inl TypeError
      | Some ob \<Rightarrow>
          (case body ob of
             ModelB M \<Rightarrow> Inr (case fieldsM M ''pk'' of None \<Rightarrow> Undefined | Some v \<Rightarrow> v)
           | _ \<Rightarrow> Inr Undefined))"

definition persisted_pk :: "heap \<Rightarrow> ref \<Rightarrow> error + val" where
  "persisted_pk h m =
     (case objs h m of None \<Rightarrow> Inl TypeError
      | Some ob \<Rightarrow>
          (case body ob of
             ModelB M \<Rightarrow> Inr (case persisted M ''pk'' of None \<Rightarrow> Undefined | Some v \<Rightarrow> v)
           | CollectionB C \<Rightarrow> Inr Undefined
           | PlainB \<Rightarrow> Inl TypeError))"

text \<open>
  \<^verbatim>\<open>Collection.rebuildMap\<close>. The loop reads \<^verbatim>\<open>this.modelMap\<close> (\<open>old\<close>), fills \<open>newMap\<close> and
  writes the new position into the \<^verbatim>\<open>ModelMeta\<close> object it found; a key that \<open>old\<close> does
  not have gives \<^verbatim>\<open>undefined\<close>, and the assignment to its \<^verbatim>\<open>index\<close> throws.
\<close>

fun rebuild :: "heap \<Rightarrow> (string \<rightharpoonup> nat) \<Rightarrow> ref list \<Rightarrow> nat \<Rightarrow>
    (string \<rightharpoonup> nat) \<times> (nat \<rightharpoonup> ModelMeta) \<Rightarrow> error + ((string \<rightharpoonup> nat) \<times> (nat \<rightharpoonup> ModelMeta))" where
  "rebuild h old [] i acc = Inr acc"
| "rebuild h old (m # ms) i (newMap, st) =
     (case pk h m of Inl e \<Rightarrow> Inl e
      | Inr p \<Rightarrow>
         (case persisted_pk h m of Inl e \<Rightarrow> Inl e
          | Inr pp \<Rightarrow>
             (case old (toPropertyKey (if truthy pp then pp else p)) of
                None \<Rightarrow> Inl TypeError
              | Some a \<Rightarrow>
                 (case st a of None \<Rightarrow> Inl TypeError
                  | Some meta \<Rightarrow>
                      rebuild h old ms (i + 1)
                        (newMap(toPropertyKey p \<mapsto> a), st(a \<mapsto> meta\<lparr>index := i\<rparr>))))))"

definition rebuildMap :: "heap \<Rightarrow> ref \<Rightarrow> error + heap" where
  "rebuildMap h this =
     andThen (getCollection h this) (\<lambda>C.
     andThen (rebuild h (modelMap C) (models C) 0 (Map.empty, metas C)) (\<lambda>(newMap, st).
       Inr (putBody h this (CollectionB (C\<lparr>modelMap := newMap, metas := st\<rparr>)))))"

text \<open>
  \<^verbatim>\<open>Events.trigger\<close>, with the callbacks it runs. A callback triggers events in turn, and
  the wiring may be cyclic, so the first argument bounds the depth of nested calls as the
  call stack does: at depth 0 the call fails with \<^verbatim>\<open>RangeError\<close>. No callback of the
  module changes a subscription list, so \<open>forEach_evts\<close> walks the list it was given.
\<close>

fun trigger :: "nat \<Rightarrow> heap \<Rightarrow> ref \<Rightarrow> string \<Rightarrow> error + heap"
and forEach_evts :: "nat \<Rightarrow> heap \<Rightarrow> ref \<Rightarrow> nat list \<Rightarrow> error + heap"
and call :: "nat \<Rightarrow> heap \<Rightarrow> callback \<Rightarrow> error + heap" where
  "trigger 0 h this name = Inl RangeError"
| "trigger (Suc n) h this name =
     (case objs h this of None \<Rightarrow> Inl TypeError
      | Some ob \<Rightarrow>
          forEach_evts n (h\<lparr>fired := fired h @ [(this, name)]\<rparr>) this
            (case map_e (ev ob) name of None \<Rightarrow> [] | Some evts \<Rightarrow> evts))"
| "forEach_evts n h this [] = Inr h"
| "forEach_evts n h this (e # es) =
     (case objs h this of None \<Rightarrow> Inl TypeError
      | Some ob \<Rightarrow>
          (case events (ev ob) e of None \<Rightarrow> Inl TypeError
           | Some func \<Rightarrow>
               (case call n h func of Inl x \<Rightarrow> Inl x
                | Inr h' \<Rightarrow> forEach_evts n h' this es)))"
| "call n h (Spy k) = Inr (h\<lparr>calls := calls h @ [k]\<rparr>)"
| "call n h (ModelChange this property) =
     (case getModel h this of Inl x \<Rightarrow> Inl x
      | Inr M \<Rightarrow>
          (case trigger n (putBody h this (ModelB (M\<lparr>clean := False\<rparr>))) this ''change'' of
             Inl x \<Rightarrow> Inl x
           | Inr h' \<Rightarrow> trigger n h' this (''change:'' @ property)))"
| "call n h (CollectionChange this model) =
     (case getCollection h this of Inl x \<Rightarrow> Inl x
      | Inr C \<Rightarrow>
          (case pk h model of Inl x \<Rightarrow> Inl x
           | Inr p \<Rightarrow>
               trigger n
                 (putBody h this (CollectionB (C\<lparr>cleanC := False,
                    persistedC := splice (persistedC C) (indexOf (persistedC C) p) 1 []\<rparr>)))
                 this ''change''))"
| "call n h (CollectionChangePK this) = rebuildMap h this"

section \<open>Model\<close>

definition Model_get :: "heap \<Rightarrow> ref \<Rightarrow> string \<Rightarrow> error + val" where
  "Model_get h this property =
     andThen (getModel h this) (\<lambda>M.
       Inr (case fieldsM M property of None \<Rightarrow> Undefined | Some v \<Rightarrow> v))"

fun off_each :: "heap \<Rightarrow> ref \<Rightarrow> nat list \<Rightarrow> error + heap" where
  "off_each h current [] = Inr h"
| "off_each h current (e # es) =
     (case off_at h current ''change'' e of Inl x \<Rightarrow> Inl x
      | Inr h' \<Rightarrow> off_each h' current es)"

text \<open>
  \<^verbatim>\<open>Model.set\<close>. Every reference of the store names an instance of \<^verbatim>\<open>Events\<close>, so
  \<^verbatim>\<open>instanceof Events\<close> is the test for \<open>Ref\<close>. \<^verbatim>\<open>this.mappedEvents[property]\<close> is
  \<^verbatim>\<open>undefined\<close> for a name the constructor did not see, and calling \<^verbatim>\<open>forEach\<close> or
  \<^verbatim>\<open>push\<close> on it throws before \<^verbatim>\<open>value.on\<close> is evaluated.
\<close>

definition Model_set :: "nat \<Rightarrow> heap \<Rightarrow> ref \<Rightarrow> string \<Rightarrow> val \<Rightarrow> error + heap" where
  "Model_set n h this property value =
     andThen (Model_get h this property) (\<lambda>current.
     andThen
       (case current of
          Ref cur \<Rightarrow>
            andThen (getModel h this) (\<lambda>M.
              (case mappedEvents M property of None \<Rightarrow> Inl TypeError
               | Some es \<Rightarrow>
                   andThen (off_each h cur es) (\<lambda>h'.
                   andThen (getModel h' this) (\<lambda>M'.
                     Inr (putBody h' this
                            (ModelB (M'\<lparr>mappedEvents := (mappedEvents M')(property \<mapsto> [])\<rparr>)))))))
        | _ \<Rightarrow> Inr h) (\<lambda>h1.
     andThen
       (case value of
          Ref v \<Rightarrow>
            andThen (getModel h1 this) (\<lambda>M.
              (case mappedEvents M property of None \<Rightarrow> Inl TypeError
               | Some es \<Rightarrow>
                   andThen (on_at h1 v ''change'' (ModelChange this property)) (\<lambda>(h', i).
                   andThen (getModel h' this) (\<lambda>M'.
                     Inr (putBody h' this
                            (ModelB (M'\<lparr>mappedEvents := (mappedEvents M')(property \<mapsto> es @ [i])\<rparr>)))))))
        | _ \<Rightarrow> Inr h1) (\<lambda>h2.
     andThen (getModel h2 this) (\<lambda>M.
     andThen
       (trigger n (putBody h2 this (ModelB (M\<lparr>fieldsM := (fieldsM M)(property \<mapsto> value),
                                              clean := False\<rparr>))) this ''change'') (\<lambda>h3.
       trigger n h3 this (''change:'' @ property))))))"

definition Model_persist :: "nat \<Rightarrow> heap \<Rightarrow> ref \<Rightarrow> error + (heap \<times> bool)" where
  "Model_persist n h this =
     andThen (getModel h this) (\<lambda>M.
       if clean M then Inr (h, False)
       else
         andThen
           (trigger n (putBody h this (ModelB (M\<lparr>clean := True,
                                                 persisted := persisted M ++ fieldsM M\<rparr>)))
              this ''persist'') (\<lambda>h'.
           Inr (h', True)))"

text \<open>
  The constructor. \<open>fieldNames\<close> is the array the \<^verbatim>\<open>@field\<close> decorator has filled on the
  prototype; \<^verbatim>\<open>pk\<close> is its first entry, declared by \<^verbatim>\<open>Model\<close> itself.
\<close>

definition Model_new :: "nat \<Rightarrow> heap \<Rightarrow> string list \<Rightarrow> string \<Rightarrow> error + (heap \<times> ref)" where
  "Model_new n h fieldNames k =
     (let this = nextRef h;
          M = \<lparr>fieldsM = map_of (map (\<lambda>name. (name, Undefined)) fieldNames),
               mappedEvents = map_of (map (\<lambda>name. (name, [])) fieldNames),
               persisted = map_of (map (\<lambda>name. (name, Undefined)) fieldNames),
               clean = False\<rparr>;
          h1 = h\<lparr>objs := (objs h)(this \<mapsto> \<lparr>ev = emptyEvents, body = ModelB M\<rparr>),
                 nextRef := this + 1\<rparr>
      in andThen (Model_set n h1 this ''pk'' (Str k)) (\<lambda>h2. Inr (h2, this)))"

section \<open>Collection\<close>

definition Collection_new :: "heap \<Rightarrow> heap \<times> ref" where
  "Collection_new h =
     (let this = nextRef h;
          C = \<lparr>modelMap = Map.empty, metas = Map.empty, nextMeta = 0, models = [],
               persistedC = [], cleanC = False\<rparr>
      in (h\<lparr>objs := (objs h)(this \<mapsto> \<lparr>ev = emptyEvents, body = CollectionB C\<rparr>),
            nextRef := this + 1\<rparr>, this))"


text \<open>\<^verbatim>\<open>this.models[index]\<close>: \<^verbatim>\<open>undefined\<close> (here \<open>None\<close>) outside the array.\<close>

definition Collection_at :: "heap \<Rightarrow> ref \<Rightarrow> int \<Rightarrow> error + ref option" where
  "Collection_at h this i =
     andThen (getCollection h this) (\<lambda>C.
       Inr (if 0 \<le> i \<and> i < int (length (models C)) then Some (models C ! nat i) else None))"

definition Collection_get :: "heap \<Rightarrow> ref \<Rightarrow> val \<Rightarrow> error + ref option" where
  "Collection_get h this k =
     andThen (getCollection h this) (\<lambda>C.
       (case modelMap C (toPropertyKey k) of None \<Rightarrow> Inl TypeError
        | Some a \<Rightarrow>
            (case metas C a of None \<Rightarrow> Inl TypeError
             | Some meta \<Rightarrow> Collection_at h this (int (index meta)))))"

definition Collection_add :: "nat \<Rightarrow> heap \<Rightarrow> ref \<Rightarrow> ref \<Rightarrow> error + heap" where
  "Collection_add n h this model =
     andThen (getCollection h this) (\<lambda>C.
     andThen (on_at (putBody h this (CollectionB (C\<lparr>models := models C @ [model]\<rparr>)))
                model ''change'' (CollectionChange this model)) (\<lambda>(h1, ch).
     andThen (on_at h1 model ''change:pk'' (CollectionChangePK this)) (\<lambda>(h2, chpk).
     andThen (pk h2 model) (\<lambda>p.
     andThen (getCollection h2 this) (\<lambda>C2.
     andThen
       (trigger n
          (putBody h2 this (CollectionB (C2\<lparr>
             metas := (metas C2)(nextMeta C2 \<mapsto>
                        \<lparr>index = length (models C), change = ch, changePK = chpk\<rparr>),
             nextMeta := nextMeta C2 + 1,
             modelMap := (modelMap C2)(toPropertyKey p \<mapsto> nextMeta C2),
             cleanC := False\<rparr>)))
          this ''change'') (\<lambda>h3.
       trigger n h3 this ''append''))))))"

definition Collection_remove :: "nat \<Rightarrow> heap \<Rightarrow> ref \<Rightarrow> ref \<Rightarrow> error + heap" where
  "Collection_remove n h this model =
     andThen (getCollection h this) (\<lambda>C.
     andThen (pk h model) (\<lambda>p.
     andThen
       (rebuildMap
          (putBody h this (CollectionB (C\<lparr>
             cleanC := False,
             models := splice (models C) (indexOf (models C) model) 1 [],
             modelMap := (modelMap C)(toPropertyKey p := None),
             persistedC := splice (persistedC C) (indexOf (persistedC C) p) 1 []\<rparr>)))
          this) (\<lambda>h1.
     andThen (trigger n h1 this ''change'') (\<lambda>h2.
       trigger n h2 this ''remove''))))"

text \<open>
  \<^verbatim>\<open>removeAt\<close> and \<^verbatim>\<open>removeBy\<close> pass what \<^verbatim>\<open>at\<close> and \<^verbatim>\<open>get\<close> return to \<^verbatim>\<open>remove\<close>; when
  that is \<^verbatim>\<open>undefined\<close>, \<^verbatim>\<open>remove\<close> throws on reading its \<^verbatim>\<open>pk\<close>.
\<close>

definition Collection_removeAt :: "nat \<Rightarrow> heap \<Rightarrow> ref \<Rightarrow> int \<Rightarrow> error + heap" where
  "Collection_removeAt n h this i =
     andThen (Collection_at h this i) (\<lambda>model.
       (case model of None \<Rightarrow> Inl TypeError
        | Some m \<Rightarrow> Collection_remove n h this m))"

definition Collection_removeBy :: "nat \<Rightarrow> heap \<Rightarrow> ref \<Rightarrow> val \<Rightarrow> error + heap" where
  "Collection_removeBy n h this k =
     andThen (Collection_get h this k) (\<lambda>model.
       (case model of None \<Rightarrow> Inl TypeError
        | Some m \<Rightarrow> Collection_remove n h this m))"

text \<open>
  \<^verbatim>\<open>moveAt\<close>. When \<^verbatim>\<open>at(index)\<close> is \<^verbatim>\<open>undefined\<close> the second \<^verbatim>\<open>splice\<close> inserts
  \<^verbatim>\<open>undefined\<close> into the array, and \<^verbatim>\<open>rebuildMap\<close> throws on reading its \<^verbatim>\<open>pk\<close>.
\<close>

definition Collection_moveAt :: "nat \<Rightarrow> heap \<Rightarrow> ref \<Rightarrow> int \<Rightarrow> int \<Rightarrow> error + heap" where
  "Collection_moveAt n h this i offset =
     andThen (getCollection h this) (\<lambda>C.
     andThen (Collection_at h this i) (\<lambda>model.
       (let newIndex = i + offset;
            newIndex = (if newIndex < 0 then 0
                        else if newIndex > int (length (models C)) - 1
                             then int (length (models C)) - 1
                             else newIndex)
        in (case model of None \<Rightarrow> Inl TypeError
            | Some m \<Rightarrow>
                andThen
                  (rebuildMap
                     (putBody h this (CollectionB (C\<lparr>
                        models := splice (splice (models C) i 1 []) newIndex 0 [m]\<rparr>)))
                     this) (\<lambda>h1.
                  trigger n h1 this ''change'')))))"

definition Collection_move :: "nat \<Rightarrow> heap \<Rightarrow> ref \<Rightarrow> ref \<Rightarrow> int \<Rightarrow> error + heap" where
  "Collection_move n h this model offset =
     andThen (getCollection h this) (\<lambda>C.
       Collection_moveAt n h this (indexOf (models C) model) offset)"

definition Collection_moveBy :: "nat \<Rightarrow> heap \<Rightarrow> ref \<Rightarrow> val \<Rightarrow> int \<Rightarrow> error + heap" where
  "Collection_moveBy n h this k offset =
     andThen (getCollection h this) (\<lambda>C.
       (case modelMap C (toPropertyKey k) of None \<Rightarrow> Inl TypeError
        | Some a \<Rightarrow>
            (case metas C a of None \<Rightarrow> Inl TypeError
             | Some meta \<Rightarrow> Collection_moveAt n h this (int (index meta)) offset)))"

fun pks :: "heap \<Rightarrow> ref list \<Rightarrow> error + val list" where
  "pks h [] = Inr []"
| "pks h (m # ms) =
     (case pk h m of Inl e \<Rightarrow> Inl e
      | Inr p \<Rightarrow> (case pks h ms of Inl e \<Rightarrow> Inl e | Inr ps \<Rightarrow> Inr (p # ps)))"

definition Collection_changed :: "heap \<Rightarrow> ref \<Rightarrow> error + val list" where
  "Collection_changed h this =
     andThen (getCollection h this) (\<lambda>C.
     andThen (pks h (models C)) (\<lambda>ps.
       Inr (filter (\<lambda>p. indexOf (persistedC C) p = - 1) ps)))"

definition Collection_persist :: "nat \<Rightarrow> heap \<Rightarrow> ref \<Rightarrow> error + (heap \<times> bool)" where
  "Collection_persist n h this =
     andThen (getCollection h this) (\<lambda>C.
       if cleanC C then Inr (h, False)
       else
         andThen (pks h (models C)) (\<lambda>ps.
         andThen
           (trigger n (putBody h this (CollectionB (C\<lparr>cleanC := True, persistedC := ps\<rparr>)))
              this ''persist'') (\<lambda>h'.
           Inr (h', True))))"

text \<open>The constructor of \<^verbatim>\<open>Events\<close> itself, and the store before any object is made.\<close>

definition Events_new :: "heap \<Rightarrow> heap \<times> ref" where
  "Events_new h =
     (let this = nextRef h
      in (h\<lparr>objs := (objs h)(this \<mapsto> \<lparr>ev = emptyEvents, body = PlainB\<rparr>),
            nextRef := this + 1\<rparr>, this))"

definition emptyHeap :: heap where
  "emptyHeap = \<lparr>objs = Map.empty, nextRef = 0, fired = [], calls = []\<rparr>"

section \<open>Notions used in the statements\<close>

text \<open>
  What no call of \<^verbatim>\<open>trigger\<close> changes: the subscriptions of every object, the fields,
  snapshot and handle lists of every model and the members of every collection. The
  histories only grow, and a dirty entity stays dirty.
\<close>

fun body_frame :: "body \<Rightarrow> body \<Rightarrow> bool" where
  "body_frame PlainB b' = (b' = PlainB)"
| "body_frame (ModelB M) b' =
     (case b' of
        ModelB M' \<Rightarrow> fieldsM M' = fieldsM M \<and> mappedEvents M' = mappedEvents M \<and>
                     persisted M' = persisted M \<and> (clean M' \<longrightarrow> clean M)
      | _ \<Rightarrow> False)"
| "body_frame (CollectionB C) b' =
     (case b' of
        CollectionB C' \<Rightarrow> models C' = models C \<and> nextMeta C' = nextMeta C \<and>
                          (cleanC C' \<longrightarrow> cleanC C)
      | _ \<Rightarrow> False)"

definition frame :: "heap \<Rightarrow> heap \<Rightarrow> bool" where
  "frame h h' =
     (nextRef h' = nextRef h \<and> (\<exists>xs. fired h' = fired h @ xs) \<and>
      (\<exists>ys. calls h' = calls h @ ys) \<and>
      (\<forall>r. case objs h r of None \<Rightarrow> objs h' r = None
            | Some ob \<Rightarrow>
                (case objs h' r of None \<Rightarrow> False
                 | Some ob' \<Rightarrow> ev ob' = ev ob \<and> body_frame (body ob) (body ob'))))"

text \<open>
  The callbacks \<^verbatim>\<open>trigger(name)\<close> runs on an object, in order. The object is \<open>quiet\<close>
  for the name when all of them are callbacks of the caller.
\<close>

definition subscribers :: "heap \<Rightarrow> ref \<Rightarrow> string \<Rightarrow> callback option list" where
  "subscribers h r name =
     (case objs h r of None \<Rightarrow> []
      | Some ob \<Rightarrow> map (events (ev ob)) (case map_e (ev ob) name of None \<Rightarrow> [] | Some l \<Rightarrow> l))"

fun spy_of :: "callback option \<Rightarrow> nat option" where
  "spy_of (Some (Spy k)) = Some k"
| "spy_of _ = None"

definition quiet :: "heap \<Rightarrow> ref \<Rightarrow> string \<Rightarrow> bool" where
  "quiet h r name = (objs h r \<noteq> None \<and> list_all (\<lambda>c. spy_of c \<noteq> None) (subscribers h r name))"

definition spies :: "heap \<Rightarrow> ref \<Rightarrow> string \<Rightarrow> nat list" where
  "spies h r name = map (\<lambda>c. the (spy_of c)) (subscribers h r name)"

text \<open>
  The key \<^verbatim>\<open>rebuildMap\<close> looks a member up with, \<^verbatim>\<open>m.persisted['pk'] || m.pk\<close>, and the
  condition under which every look-up of a list of members finds a \<^verbatim>\<open>ModelMeta\<close>.
\<close>

definition lookupKey :: "heap \<Rightarrow> ref \<Rightarrow> error + string" where
  "lookupKey h m =
     andThen (pk h m) (\<lambda>p.
     andThen (persisted_pk h m) (\<lambda>pp.
       Inr (toPropertyKey (if truthy pp then pp else p))))"


text \<open>
  A store for examples: two models \<open>a\<close> (0) and \<open>b\<close> (1), the collection (2) that holds
  them in this order, a model (3) whose field \<^verbatim>\<open>foos\<close> is that collection, as
  \<^verbatim>\<open>add\<close> and \<^verbatim>\<open>set\<close> leave them, and a model \<open>c\<close> (4) that is in no collection.
\<close>

definition memberEvents :: "ref \<Rightarrow> ref \<Rightarrow> Events" where
  "memberEvents coll m =
     \<lparr>eventIndex = 2, map_e = [''change'' \<mapsto> [1], ''change:pk'' \<mapsto> [2]],
      events = [1 \<mapsto> CollectionChange coll m, 2 \<mapsto> CollectionChangePK coll]\<rparr>"

definition freshModel :: "string \<Rightarrow> Model" where
  "freshModel k =
     \<lparr>fieldsM = [''pk'' \<mapsto> Str k, ''bar'' \<mapsto> Undefined],
      mappedEvents = [''pk'' \<mapsto> [], ''bar'' \<mapsto> []],
      persisted = [''pk'' \<mapsto> Undefined, ''bar'' \<mapsto> Undefined],
      clean = False\<rparr>"

definition exampleSet :: Collection where
  "exampleSet =
     \<lparr>modelMap = [''a'' \<mapsto> 0, ''b'' \<mapsto> 1],
      metas = [0 \<mapsto> \<lparr>index = 0, change = 1, changePK = 2\<rparr>,
               1 \<mapsto> \<lparr>index = 1, change = 1, changePK = 2\<rparr>],
      nextMeta = 2, models = [0, 1], persistedC = [], cleanC = False\<rparr>"

definition exampleOwner :: Model where
  "exampleOwner =
     \<lparr>fieldsM = [''pk'' \<mapsto> Str ''r'', ''foos'' \<mapsto> Ref 2],
      mappedEvents = [''pk'' \<mapsto> [], ''foos'' \<mapsto> [1]],
      persisted = [''pk'' \<mapsto> Undefined, ''foos'' \<mapsto> Undefined],
      clean = False\<rparr>"

definition exampleHeap :: heap where
  "exampleHeap =
     \<lparr>objs = [0 \<mapsto> \<lparr>ev = memberEvents 2 0, body = ModelB (freshModel ''a'')\<rparr>,
              1 \<mapsto> \<lparr>ev = memberEvents 2 1, body = ModelB (freshModel ''b'')\<rparr>,
              2 \<mapsto> \<lparr>ev = \<lparr>eventIndex = 1, map_e = [''change'' \<mapsto> [1]],
                            events = [1 \<mapsto> ModelChange 3 ''foos'']\<rparr>,
                     body = CollectionB exampleSet\<rparr>,
              3 \<mapsto> \<lparr>ev = emptyEvents, body = ModelB exampleOwner\<rparr>,
              4 \<mapsto> \<lparr>ev = emptyEvents, body = ModelB (freshModel ''c'')\<rparr>],
      nextRef = 5, fired = [], calls = []\<rparr>"


definition reinsert :: "'a list \<Rightarrow> nat \<Rightarrow> nat \<Rightarrow> 'a list" where
  "reinsert xs i j =
     (let rest = take i xs @ drop (Suc i) xs in take j rest @ xs ! i # drop j rest)"

text \<open>
  A second example store: four members \<open>a\<close>, \<open>b\<close>, \<open>c\<close>, \<open>d\<close> (0 to 3) of the collection 4,
  which has been persisted, and two models that are not members: 5 with pk \<open>z\<close> and 6
  with pk \<open>a\<close>.
\<close>

definition exampleSet4 :: Collection where
  "exampleSet4 =
     \<lparr>modelMap = [''a'' \<mapsto> 0, ''b'' \<mapsto> 1, ''c'' \<mapsto> 2, ''d'' \<mapsto> 3],
      metas = [0 \<mapsto> \<lparr>index = 0, change = 1, changePK = 2\<rparr>,
               1 \<mapsto> \<lparr>index = 1, change = 1, changePK = 2\<rparr>,
               2 \<mapsto> \<lparr>index = 2, change = 1, changePK = 2\<rparr>,
               3 \<mapsto> \<lparr>index = 3, change = 1, changePK = 2\<rparr>],
      nextMeta = 4, models = [0, 1, 2, 3],
      persistedC = [Str ''a'', Str ''b'', Str ''c'', Str ''d''], cleanC = True\<rparr>"

definition exampleHeap4 :: heap where
  "exampleHeap4 =
     \<lparr>objs = [0 \<mapsto> \<lparr>ev = memberEvents 4 0, body = ModelB (freshModel ''a'')\<rparr>,
              1 \<mapsto> \<lparr>ev = memberEvents 4 1, body = ModelB (freshModel ''b'')\<rparr>,
              2 \<mapsto> \<lparr>ev = memberEvents 4 2, body = ModelB (freshModel ''c'')\<rparr>,
              3 \<mapsto> \<lparr>ev = memberEvents 4 3, body = ModelB (freshModel ''d'')\<rparr>,
              4 \<mapsto> \<lparr>ev = emptyEvents, body = CollectionB exampleSet4\<rparr>,
              5 \<mapsto> \<lparr>ev = emptyEvents, body = ModelB (freshModel ''z'')\<rparr>,
              6 \<mapsto> \<lparr>ev = emptyEvents, body = ModelB (freshModel ''a'')\<rparr>],
      nextRef = 7, fired = [], calls = []\<rparr>"

text \<open>
  A state in which \<^verbatim>\<open>rebuildMap\<close> on the collection \<open>c\<close> throws: the look-up key of the
  member \<open>m\<close> has no entry.
\<close>

definition stuck :: "ref \<Rightarrow> ref \<Rightarrow> heap \<Rightarrow> bool" where
  "stuck c m h =
     (\<exists>C k. getCollection h c = Inr C \<and> m \<in> set (models C) \<and> lookupKey h m = Inr k \<and>
            modelMap C k = None)"

text \<open>
  \<open>observes h R f S\<close>: the callback \<^verbatim>\<open>set\<close> registers for the field \<open>f\<close> of \<open>R\<close> is
  subscribed to \<^verbatim>\<open>change\<close> on \<open>S\<close>. \<open>marks h h' R f\<close>: between \<open>h\<close> and \<open>h'\<close> the events
  \<^verbatim>\<open>change\<close> and \<^verbatim>\<open>change:f\<close> have been triggered on \<open>R\<close>, and \<open>R\<close> is dirty in \<open>h'\<close>.
\<close>

definition observes :: "heap \<Rightarrow> ref \<Rightarrow> string \<Rightarrow> ref \<Rightarrow> bool" where
  "observes h R f S = (Some (ModelChange R f) \<in> set (subscribers h S ''change''))"

definition marks :: "heap \<Rightarrow> heap \<Rightarrow> ref \<Rightarrow> string \<Rightarrow> bool" where
  "marks h h' R f =
     ((\<exists>M'. getModel h' R = Inr M' \<and> \<not> clean M') \<and>
      (\<exists>xs. fired h' = fired h @ xs \<and> (R, ''change'') \<in> set xs \<and>
            (R, ''change:'' @ f) \<in> set xs))"

text \<open>
  \<open>cascading h S name R f\<close>: every callback subscribed to \<open>name\<close> on \<open>S\<close> is a callback
  of the caller or the callback \<^verbatim>\<open>set\<close> registers for the field \<open>f\<close> of \<open>R\<close>.
\<close>

definition cascading :: "heap \<Rightarrow> ref \<Rightarrow> string \<Rightarrow> ref \<Rightarrow> string \<Rightarrow> bool" where
  "cascading h S name R f =
     (objs h S \<noteq> None \<and>
      list_all (\<lambda>c. spy_of c \<noteq> None \<or> c = Some (ModelChange R f)) (subscribers h S name))"

text \<open>
  The index of a collection is right, in the words of the specification: no two items
  share a pk (as keys of the index), every item's key is a key of the index and no other
  key is, and the entry of the item at position \<open>i\<close> holds the position \<open>i\<close>. Two clauses
  make the property one that the operations keep: the key \<^verbatim>\<open>rebuildMap\<close> looks an item
  up with is the item's own key, and the addresses in \<open>metas\<close> are below \<open>nextMeta\<close>.
\<close>

definition keyOf :: "heap \<Rightarrow> ref \<Rightarrow> error + string" where
  "keyOf h m = andThen (pk h m) (\<lambda>p. Inr (toPropertyKey p))"

definition indexed :: "heap \<Rightarrow> ref \<Rightarrow> bool" where
  "indexed h c =
     (\<exists>C. getCollection h c = Inr C \<and>
        distinct (map (keyOf h) (models C)) \<and>
        (\<forall>m\<in>set (models C). \<exists>k. keyOf h m = Inr k \<and> lookupKey h m = Inr k) \<and>
        dom (modelMap C) = {k. \<exists>m\<in>set (models C). keyOf h m = Inr k} \<and>
        (\<forall>i<length (models C). \<exists>k a meta. keyOf h (models C ! i) = Inr k \<and>
            modelMap C k = Some a \<and> metas C a = Some meta \<and> index meta = i) \<and>
        (\<forall>a. metas C a \<noteq> None \<longrightarrow> a < nextMeta C))"



definition walk0 :: heap where
  "walk0 = fst (Collection_new exampleHeap)"





text \<open>
  The objects a callback notifies, and the callbacks registered on an object, with their
  handles. A set of objects is \<open>closed\<close> when every callback registered on one of its
  objects notifies objects of the set only. \<open>untouched h h' R\<close>: in \<open>h'\<close> the model \<open>R\<close> is
  what it was in \<open>h\<close>, and no event has been triggered on it in between.
  \<open>outside A h h'\<close>: the objects outside \<open>A\<close> are the same, and events have been triggered
  on objects of \<open>A\<close> only. \<open>listed h r\<close>: the object has a subscription list for
  \<^verbatim>\<open>change\<close>, so that \<^verbatim>\<open>off\<close> does not return early.
\<close>

fun notified :: "callback \<Rightarrow> ref set" where
  "notified (Spy k) = {}"
| "notified (ModelChange r p) = {r}"
| "notified (CollectionChange r m) = {r}"
| "notified (CollectionChangePK r) = {r}"

definition entries :: "heap \<Rightarrow> ref \<Rightarrow> (nat \<times> callback) set" where
  "entries h r =
     (case objs h r of None \<Rightarrow> {} | Some ob \<Rightarrow> {(e, cb). events (ev ob) e = Some cb})"

definition closed :: "heap \<Rightarrow> ref set \<Rightarrow> bool" where
  "closed h A = (\<forall>r\<in>A. \<forall>(e, cb)\<in>entries h r. notified cb \<subseteq> A)"

definition untouched :: "heap \<Rightarrow> heap \<Rightarrow> ref \<Rightarrow> bool" where
  "untouched h h' R =
     (getModel h' R = getModel h R \<and> (\<exists>xs. fired h' = fired h @ xs \<and> R \<notin> fst ` set xs))"

definition outside :: "ref set \<Rightarrow> heap \<Rightarrow> heap \<Rightarrow> bool" where
  "outside A h h' =
     ((\<forall>x. x \<notin> A \<longrightarrow> objs h' x = objs h x) \<and>
      (\<exists>xs. fired h' = fired h @ xs \<and> fst ` set xs \<subseteq> A))"

definition listed :: "heap \<Rightarrow> ref \<Rightarrow> bool" where
  "listed h r = (case objs h r of None \<Rightarrow> False | Some ob \<Rightarrow> map_e (ev ob) ''change'' \<noteq> None)"

text \<open>
  Sequences of \<^verbatim>\<open>add\<close>, \<^verbatim>\<open>remove\<close> and \<^verbatim>\<open>move\<close> calls (and their variants by index and
  by pk) on the collection \<open>c\<close> that return, with any records and any arguments.
\<close>

inductive mutates :: "ref \<Rightarrow> heap \<Rightarrow> heap \<Rightarrow> bool" for c :: ref where
  mutates_refl: "mutates c h h"
| mutates_add: "mutates c h h1 \<Longrightarrow> Collection_add n h1 c m = Inr h2 \<Longrightarrow> mutates c h h2"
| mutates_remove: "mutates c h h1 \<Longrightarrow> Collection_remove n h1 c m = Inr h2 \<Longrightarrow> mutates c h h2"
| mutates_removeAt: "mutates c h h1 \<Longrightarrow> Collection_removeAt n h1 c i = Inr h2 \<Longrightarrow> mutates c h h2"
| mutates_removeBy: "mutates c h h1 \<Longrightarrow> Collection_removeBy n h1 c p = Inr h2 \<Longrightarrow> mutates c h h2"
| mutates_move: "mutates c h h1 \<Longrightarrow> Collection_move n h1 c m offset = Inr h2 \<Longrightarrow> mutates c h h2"
| mutates_moveAt: "mutates c h h1 \<Longrightarrow> Collection_moveAt n h1 c i offset = Inr h2 \<Longrightarrow> mutates c h h2"
| mutates_moveBy: "mutates c h h1 \<Longrightarrow> Collection_moveBy n h1 c p offset = Inr h2 \<Longrightarrow> mutates c h h2"

text \<open>
  Two more runs. In the first example store with the new collection 5: the record 4
  sets its field \<^verbatim>\<open>bar\<close> to the collection, sets it to \<^verbatim>\<open>undefined\<close>, is persisted, and
  the model 0 is added to the collection. In a store made by the constructors, with a
  collection (0), a record (1) with the fields \<^verbatim>\<open>foos\<close> and \<^verbatim>\<open>also\<close> and a record (2): the
  record 1 sets both fields to the collection, sets \<^verbatim>\<open>foos\<close> to \<^verbatim>\<open>undefined\<close>, is
  persisted, and the record 2 is added to the collection.
\<close>

definition detach1 :: heap where
  "detach1 = projr (Model_set 1 walk0 4 ''bar'' (Ref 5))"

definition detach2 :: heap where
  "detach2 = projr (Model_set 1 detach1 4 ''bar'' Undefined)"

definition detach3 :: heap where
  "detach3 = fst (projr (Model_persist 1 detach2 4))"

definition detach4 :: heap where
  "detach4 = projr (Collection_add 1 detach3 5 0)"

definition both0 :: heap where
  "both0 =
     (let (h0, s) = Collection_new emptyHeap;
          (h1, r) = projr (Model_new 1 h0 [''pk'', ''foos'', ''also''] ''r'');
          (h2, c) = projr (Model_new 1 h1 [''pk'', ''bar''] ''c'')
      in h2)"

definition both1 :: heap where
  "both1 = projr (Model_set 1 both0 1 ''foos'' (Ref 0))"

definition both2 :: heap where
  "both2 = projr (Model_set 1 both1 1 ''also'' (Ref 0))"

definition both3 :: heap where
  "both3 = projr (Model_set 1 both2 1 ''foos'' Undefined)"

definition both4 :: heap where
  "both4 = fst (projr (Model_persist 1 both3 1))"

definition both5 :: heap where
  "both5 = projr (Collection_add 2 both4 0 2)"

section \<open>Basic facts\<close>

lemma andThen_Inr [simp]: "andThen (Inr x) f = f x"
  by (simp add: andThen_def)

lemma andThen_Inl [simp]: "andThen (Inl e) f = Inl e"
  by (simp add: andThen_def)

lemma body_frame_refl [simp]: "body_frame b b"
  by (cases b) auto

lemma body_frame_trans: "body_frame a b \<Longrightarrow> body_frame b c \<Longrightarrow> body_frame a c"
  by (cases a; cases b; cases c) auto

lemma frame_refl [simp]: "frame h h"
  by (auto simp: frame_def split: option.splits)

lemma frame_trans: "frame a b \<Longrightarrow> frame b c \<Longrightarrow> frame a c"
  unfolding frame_def
  apply (intro conjI)
     apply simp
    apply (elim conjE exE) apply simp
   apply (elim conjE exE) apply simp
  apply (intro allI)
  subgoal for r
    apply (elim conjE)
    apply (erule_tac x=r in allE)+
    apply (auto split: option.splits intro: body_frame_trans)
    done
  done

lemma frame_putBody:
  "(\<And>ob. objs h r = Some ob \<Longrightarrow> body_frame (body ob) b) \<Longrightarrow> frame h (putBody h r b)"
  by (auto simp: frame_def putBody_def split: option.splits)

lemma frame_fired [simp]: "frame h (h\<lparr>fired := fired h @ xs\<rparr>)"
  by (auto simp: frame_def split: option.splits)

lemma frame_calls [simp]: "frame h (h\<lparr>calls := calls h @ xs\<rparr>)"
  by (auto simp: frame_def split: option.splits)

lemma getModel_Inr: "getModel h r = Inr M \<longleftrightarrow> (\<exists>ob. objs h r = Some ob \<and> body ob = ModelB M)"
  by (auto simp: getModel_def split: option.splits body.splits)

lemma getCollection_Inr: "getCollection h r = Inr C \<longleftrightarrow> (\<exists>ob. objs h r = Some ob \<and> body ob = CollectionB C)"
  by (auto simp: getCollection_def split: option.splits body.splits)

lemma andThen_eq_Inr: "andThen r f = Inr y \<longleftrightarrow> (\<exists>x. r = Inr x \<and> f x = Inr y)"
  by (cases r) auto

lemma rebuildMap_frame: "rebuildMap h c = Inr h' \<Longrightarrow> frame h h'"
  by (auto simp: rebuildMap_def andThen_eq_Inr getCollection_Inr intro!: frame_putBody)

text \<open>
  A property of the store that the assignments made by the callbacks keep is kept by
  \<^verbatim>\<open>trigger\<close>.
\<close>

lemma trigger_preserves_aux:
  assumes fi: "\<And>h x. P h \<Longrightarrow> P (h\<lparr>fired := fired h @ [x]\<rparr>)"
    and ca: "\<And>h k. P h \<Longrightarrow> P (h\<lparr>calls := calls h @ [k]\<rparr>)"
    and mo: "\<And>h r M. P h \<Longrightarrow> getModel h r = Inr M \<Longrightarrow> P (putBody h r (ModelB (M\<lparr>clean := False\<rparr>)))"
    and co: "\<And>h r C ps. P h \<Longrightarrow> getCollection h r = Inr C \<Longrightarrow>
               P (putBody h r (CollectionB (C\<lparr>cleanC := False, persistedC := ps\<rparr>)))"
    and rb: "\<And>h r h'. P h \<Longrightarrow> rebuildMap h r = Inr h' \<Longrightarrow> P h'"
  shows "(\<forall>h'. P h \<longrightarrow> trigger n h r name = Inr h' \<longrightarrow> P h')"
    and "(\<forall>h'. P h \<longrightarrow> forEach_evts n h r es = Inr h' \<longrightarrow> P h')"
    and "(\<forall>h'. P h \<longrightarrow> call n h cb = Inr h' \<longrightarrow> P h')"
proof (induction n h r name and n h r es and n h cb rule: trigger_forEach_evts_call.induct)
  case (1 h this name)
  then show ?case by simp
next
  case (2 n h this name)
  show ?case
  proof (intro allI impI)
    fix h' assume P: "P h" and a: "trigger (Suc n) h this name = Inr h'"
    then obtain ob where ob: "objs h this = Some ob"
      and r: "forEach_evts n (h\<lparr>fired := fired h @ [(this, name)]\<rparr>) this
            (case map_e (ev ob) name of None \<Rightarrow> [] | Some evts \<Rightarrow> evts) = Inr h'"
      by (auto split: option.splits)
    show "P h'" using 2 [OF ob] fi [OF P] r by blast
  qed
next
  case (3 n h this)
  then show ?case by simp
next
  case (4 n h this e es)
  show ?case
  proof (intro allI impI)
    fix h' assume P: "P h" and a: "forEach_evts n h this (e # es) = Inr h'"
    then obtain ob func h1 where ob: "objs h this = Some ob"
      and func: "events (ev ob) e = Some func"
      and c: "call n h func = Inr h1"
      and r: "forEach_evts n h1 this es = Inr h'"
      by (auto split: option.splits sum.splits)
    have "P h1" using 4(1) [OF ob func] c P by blast
    then show "P h'" using 4(2) [OF ob func c] r by blast
  qed
next
  case (5 n h k)
  then show ?case using ca by simp
next
  case (6 n h this property)
  show ?case
  proof (intro allI impI)
    fix h' assume P: "P h" and a: "call n h (ModelChange this property) = Inr h'"
    then obtain M h1 where M: "getModel h this = Inr M"
      and t1: "trigger n (putBody h this (ModelB (M\<lparr>clean := False\<rparr>))) this ''change'' = Inr h1"
      and t2: "trigger n h1 this (''change:'' @ property) = Inr h'"
      by (auto split: sum.splits)
    have "P h1" using 6(1) [OF M] t1 mo [OF P M] by blast
    then show "P h'" using 6(2) [OF M t1] t2 by blast
  qed
next
  case (7 n h this model)
  show ?case
  proof (intro allI impI)
    fix h' assume P: "P h" and a: "call n h (CollectionChange this model) = Inr h'"
    then obtain C p where C: "getCollection h this = Inr C" and p: "pk h model = Inr p"
      and t1: "trigger n (putBody h this (CollectionB (C\<lparr>cleanC := False,
                    persistedC := splice (persistedC C) (indexOf (persistedC C) p) 1 []\<rparr>))) this ''change'' = Inr h'"
      by (auto split: sum.splits)
    show "P h'" using co [OF P C] 7 [OF C p] t1 by blast
  qed
next
  case (8 n h this)
  then show ?case using rb by auto
qed

lemma trigger_preserves:
  assumes "\<And>h x. P h \<Longrightarrow> P (h\<lparr>fired := fired h @ [x]\<rparr>)"
    and "\<And>h k. P h \<Longrightarrow> P (h\<lparr>calls := calls h @ [k]\<rparr>)"
    and "\<And>h r M. P h \<Longrightarrow> getModel h r = Inr M \<Longrightarrow> P (putBody h r (ModelB (M\<lparr>clean := False\<rparr>)))"
    and "\<And>h r C ps. P h \<Longrightarrow> getCollection h r = Inr C \<Longrightarrow>
               P (putBody h r (CollectionB (C\<lparr>cleanC := False, persistedC := ps\<rparr>)))"
    and "\<And>h r h'. P h \<Longrightarrow> rebuildMap h r = Inr h' \<Longrightarrow> P h'"
    and "P h" and "trigger n h r name = Inr h'"
  shows "P h'"
proof -
  have "\<forall>h'. P h \<longrightarrow> trigger n h r name = Inr h' \<longrightarrow> P h'"
    apply (rule trigger_preserves_aux(1) [where P = P])
        apply (erule assms(1))
       apply (erule assms(2))
      apply (erule (1) assms(3))
     apply (erule (1) assms(4))
    apply (erule (1) assms(5))
    done
  then show ?thesis using assms(6,7) by blast
qed

lemma trigger_frame: "trigger n h r name = Inr h' \<Longrightarrow> frame h h'"
proof (rule trigger_preserves [where P = "frame h"])
  show "frame h h" by simp
next
  fix a x assume "frame h a"
  then show "frame h (a\<lparr>fired := fired a @ [x]\<rparr>)"
    by (rule frame_trans) simp
next
  fix a k assume "frame h a"
  then show "frame h (a\<lparr>calls := calls a @ [k]\<rparr>)"
    by (rule frame_trans) simp
next
  fix a r M assume "frame h a" "getModel a r = Inr M"
  then show "frame h (putBody a r (ModelB (M\<lparr>clean := False\<rparr>)))"
    by (elim frame_trans) (auto simp: getModel_Inr intro!: frame_putBody)
next
  fix a r C ps assume "frame h a" "getCollection a r = Inr C"
  then show "frame h (putBody a r (CollectionB (C\<lparr>cleanC := False, persistedC := ps\<rparr>)))"
    by (elim frame_trans) (auto simp: getCollection_Inr intro!: frame_putBody)
next
  fix a r b assume "frame h a" "rebuildMap a r = Inr b"
  then show "frame h b"
    by (blast intro: frame_trans rebuildMap_frame)
qed

lemma forEach_quiet:
  assumes "objs h r = Some ob" "list_all (\<lambda>e. spy_of (events (ev ob) e) \<noteq> None) es"
  shows "forEach_evts n h r es = Inr (h\<lparr>calls := calls h @ map (\<lambda>e. the (spy_of (events (ev ob) e))) es\<rparr>)"
  using assms
proof (induction es arbitrary: h)
  case Nil
  then show ?case by simp
next
  case (Cons e es)
  from Cons.prems obtain k where k: "events (ev ob) e = Some (Spy k)"
    by (cases "events (ev ob) e" rule: spy_of.cases) auto
  have "forEach_evts n (h\<lparr>calls := calls h @ [k]\<rparr>) r es =
      Inr (h\<lparr>calls := calls h @ [k]\<rparr>\<lparr>calls := calls (h\<lparr>calls := calls h @ [k]\<rparr>) @ map (\<lambda>e. the (spy_of (events (ev ob) e))) es\<rparr>)"
    using Cons.prems by (intro Cons.IH) auto
  then show ?case using Cons.prems k by simp
qed

lemma trigger_quiet:
  "quiet h r name \<Longrightarrow>
   trigger (Suc n) h r name =
     Inr (h\<lparr>fired := fired h @ [(r, name)], calls := calls h @ spies h r name\<rparr>)"
  apply (clarsimp simp: quiet_def subscribers_def spies_def split: option.splits)
  apply (subst forEach_quiet)
    apply (auto simp: list_all_iff comp_def)
  done


text \<open>Reading and writing the store.\<close>

lemma objs_putBody:
  "objs (putBody h r b) =
     (case objs h r of None \<Rightarrow> objs h | Some ob \<Rightarrow> (objs h)(r \<mapsto> ob\<lparr>body := b\<rparr>))"
  by (simp add: putBody_def split: option.splits)

lemma putBody_fields [simp]:
  "fired (putBody h r b) = fired h" "calls (putBody h r b) = calls h"
  "nextRef (putBody h r b) = nextRef h"
  by (simp_all add: putBody_def split: option.splits)

lemma getModel_putBody_same [simp]:
  "objs h r \<noteq> None \<Longrightarrow> getModel (putBody h r (ModelB M)) r = Inr M"
  by (auto simp: getModel_def putBody_def)

lemma getCollection_putBody_same [simp]:
  "objs h r \<noteq> None \<Longrightarrow> getCollection (putBody h r (CollectionB C)) r = Inr C"
  by (auto simp: getCollection_def putBody_def)

lemma getModel_putBody_other [simp]:
  "r' \<noteq> r \<Longrightarrow> getModel (putBody h r b) r' = getModel h r'"
  by (auto simp: getModel_def putBody_def split: option.splits)

lemma getCollection_putBody_other [simp]:
  "r' \<noteq> r \<Longrightarrow> getCollection (putBody h r b) r' = getCollection h r'"
  by (auto simp: getCollection_def putBody_def split: option.splits)

lemma subscribers_putBody [simp]: "subscribers (putBody h r b) r' name = subscribers h r' name"
  by (auto simp: subscribers_def putBody_def split: option.splits)

lemma quiet_putBody [simp]: "quiet (putBody h r b) r' name = quiet h r' name"
  by (simp add: quiet_def objs_putBody split: option.splits)

lemma spies_putBody [simp]: "spies (putBody h r b) r' name = spies h r' name"
  by (simp add: spies_def)

lemma putBody_putBody [simp]: "putBody (putBody h r b) r b' = putBody h r b'"
  by (auto simp: putBody_def fun_eq_iff split: option.splits)

lemma putBody_same:
  "objs h r = Some ob \<Longrightarrow> body ob = b \<Longrightarrow> putBody h r b = h"
  by (auto simp: putBody_def fun_eq_iff)

lemma getModel_objs: "getModel h r = Inr M \<Longrightarrow> objs h r \<noteq> None"
  by (auto simp: getModel_Inr)

lemma getCollection_objs: "getCollection h r = Inr C \<Longrightarrow> objs h r \<noteq> None"
  by (auto simp: getCollection_Inr)

lemma quiet_objs: "quiet h r name \<Longrightarrow> objs h r \<noteq> None"
  by (simp add: quiet_def)

lemma putBody_getModel [simp]: "getModel h r = Inr M \<Longrightarrow> putBody h r (ModelB M) = h"
  by (auto simp: getModel_Inr intro: putBody_same)

lemma putBody_getCollection [simp]: "getCollection h r = Inr C \<Longrightarrow> putBody h r (CollectionB C) = h"
  by (auto simp: getCollection_Inr intro: putBody_same)

lemma putBody_upd_fired [simp]:
  "putBody (h\<lparr>fired := x\<rparr>) r b = (putBody h r b)\<lparr>fired := x\<rparr>"
  "putBody (h\<lparr>calls := y\<rparr>) r b = (putBody h r b)\<lparr>calls := y\<rparr>"
  by (auto simp: putBody_def split: option.splits)

lemma get_upd_fired [simp]:
  "getModel (h\<lparr>fired := x\<rparr>) r = getModel h r"
  "getModel (h\<lparr>calls := y\<rparr>) r = getModel h r"
  "getCollection (h\<lparr>fired := x\<rparr>) r = getCollection h r"
  "getCollection (h\<lparr>calls := y\<rparr>) r = getCollection h r"
  by (auto simp: getModel_def getCollection_def)

section \<open>Events: unsubscribing\<close>

lemmas scenario_defs =
  emptyHeap_def Events_new_def Model_new_def Collection_new_def
  Model_get_def Model_set_def Model_persist_def
  Collection_add_def Collection_remove_def Collection_moveAt_def Collection_move_def
  Collection_persist_def Collection_changed_def Collection_at_def Collection_get_def
  getModel_def getCollection_def putBody_def on_at_def off_at_def
  Events_on_def Events_off_def emptyEvents_def splice_def pk_def persisted_pk_def
  rebuildMap_def Let_def

text \<open>
  C7. \<^verbatim>\<open>off(name, handle)\<close> with a handle that is not registered under \<open>name\<close> is not a
  no-op: \<^verbatim>\<open>indexOf\<close> gives \<open>-1\<close> and \<^verbatim>\<open>splice(-1, 1)\<close> removes the last subscription
  of the name. On a bus with one callback under \<^verbatim>\<open>foo\<close> (handle 1), \<^verbatim>\<open>off('foo', 2)\<close>
  leaves \<^verbatim>\<open>trigger('foo')\<close> with nothing to call.
\<close>

theorem Events_off_unregistered_handle:
  "(let (h1, bus) = Events_new emptyHeap in
    andThen (on_at h1 bus ''foo'' (Spy 7)) (\<lambda>(h2, i).
    andThen (trigger 1 h2 bus ''foo'') (\<lambda>before.
    andThen (off_at h2 bus ''foo'' (i + 1)) (\<lambda>h3.
    andThen (trigger 1 h3 bus ''foo'') (\<lambda>after.
      Inr (i, calls before, subscribers h3 bus ''foo'', calls after))))))
   = Inr (1, [7], [], [])"
  by code_simp

section \<open>Collection: the handler of a member's change\<close>

text \<open>
  C6. The handler \<^verbatim>\<open>add\<close> installs on a member's \<^verbatim>\<open>change\<close> removes the last entry of
  \<^verbatim>\<open>persisted\<close> when the member's pk is not in it. Members \<open>a\<close> and \<open>b\<close> are persisted;
  \<open>a\<close> changes twice. The first change removes \<open>a\<close>, the second removes \<open>b\<close>, which
  never changed and is now listed by \<^verbatim>\<open>changed\<close>.
\<close>

theorem CollectionChange_absent_pk_drops_last:
  "andThen (Model_new 3 emptyHeap [''pk'', ''bar''] ''a'') (\<lambda>(h1, A).
   andThen (Model_new 3 h1 [''pk'', ''bar''] ''b'') (\<lambda>(h2, B).
   (let (h3, S) = Collection_new h2 in
   andThen (Collection_add 3 h3 S A) (\<lambda>h4.
   andThen (Collection_add 3 h4 S B) (\<lambda>h5.
   andThen (Collection_persist 3 h5 S) (\<lambda>(h6, r).
   andThen (Model_set 3 h6 A ''bar'' (Str ''x'')) (\<lambda>h7.
   andThen (Model_set 3 h7 A ''bar'' (Str ''y'')) (\<lambda>h8.
   andThen (getCollection h6 S) (\<lambda>C6.
   andThen (getCollection h7 S) (\<lambda>C7.
   andThen (getCollection h8 S) (\<lambda>C8.
   andThen (Collection_changed h8 S) (\<lambda>ch.
     Inr (persistedC C6, persistedC C7, persistedC C8, ch)))))))))))))
   = Inr ([Str ''a'', Str ''b''], [Str ''b''], [], [Str ''a'', Str ''b''])"
  by code_simp

section \<open>Persisting\<close>

text \<open>The example store is what the constructors, \<^verbatim>\<open>add\<close> and \<^verbatim>\<open>set\<close> build.\<close>

lemma exampleHeap_built:
  "andThen (Model_new 1 emptyHeap [''pk'', ''bar''] ''a'') (\<lambda>(h1, A).
   andThen (Model_new 1 h1 [''pk'', ''bar''] ''b'') (\<lambda>(h2, B).
   (let (h3, S) = Collection_new h2 in
   andThen (Model_new 1 h3 [''pk'', ''foos''] ''r'') (\<lambda>(h4, R).
   andThen (Model_new 1 h4 [''pk'', ''bar''] ''c'') (\<lambda>(h4', C).
   andThen (Collection_add 1 h4' S A) (\<lambda>h5.
   andThen (Collection_add 1 h5 S B) (\<lambda>h6.
   andThen (Model_set 1 h6 R ''foos'' (Ref S)) (\<lambda>h7.
       Inr (h7\<lparr>fired := []\<rparr>)))))))))
   = Inr exampleHeap"
  apply (simp add: scenario_defs exampleHeap_def memberEvents_def freshModel_def exampleSet_def exampleOwner_def eval_nat_numeral)
  apply (auto simp: fun_eq_iff)
  done


text \<open>
  C4. \<^verbatim>\<open>persist()\<close> on a dirty model returns true, leaves \<open>clean\<close> set and the snapshot
  holding every field's current value, and triggers \<^verbatim>\<open>persist\<close>; on a dirty collection
  it returns true and leaves the snapshot equal to the members' pks in order. A second
  \<^verbatim>\<open>persist()\<close> returns false and gives back the same store, so nothing is triggered.
  The callbacks registered under \<^verbatim>\<open>persist\<close> are the caller's.
\<close>

theorem persist_twice:
  "(getModel h r = Inr M \<and> \<not> clean M \<and> quiet h r ''persist'' \<longrightarrow>
      (\<exists>h'. Model_persist (Suc n) h r = Inr (h', True) \<and>
            getModel h' r = Inr (M\<lparr>clean := True, persisted := persisted M ++ fieldsM M\<rparr>) \<and>
            (\<forall>f v. fieldsM M f = Some v \<longrightarrow> (persisted M ++ fieldsM M) f = Some v) \<and>
            fired h' = fired h @ [(r, ''persist'')] \<and>
            Model_persist k h' r = Inr (h', False)))
   \<and> (getCollection h c = Inr C \<and> \<not> cleanC C \<and> pks h (models C) = Inr ps \<and>
       quiet h c ''persist'' \<longrightarrow>
      (\<exists>h'. Collection_persist (Suc n) h c = Inr (h', True) \<and>
            getCollection h' c = Inr (C\<lparr>cleanC := True, persistedC := ps\<rparr>) \<and>
            fired h' = fired h @ [(c, ''persist'')] \<and>
            Collection_persist k h' c = Inr (h', False)))"
proof (intro conjI impI)
  assume a: "getModel h r = Inr M \<and> \<not> clean M \<and> quiet h r ''persist''"
  then have o: "objs h r \<noteq> None" by (blast dest: quiet_objs)
  show "\<exists>h'. Model_persist (Suc n) h r = Inr (h', True) \<and>
            getModel h' r = Inr (M\<lparr>clean := True, persisted := persisted M ++ fieldsM M\<rparr>) \<and>
            (\<forall>f v. fieldsM M f = Some v \<longrightarrow> (persisted M ++ fieldsM M) f = Some v) \<and>
            fired h' = fired h @ [(r, ''persist'')] \<and>
            Model_persist k h' r = Inr (h', False)"
    using a o by (simp add: Model_persist_def trigger_quiet del: trigger.simps)
next
  assume a: "getCollection h c = Inr C \<and> \<not> cleanC C \<and> pks h (models C) = Inr ps \<and>
       quiet h c ''persist''"
  then have o: "objs h c \<noteq> None" by (blast dest: quiet_objs)
  show "\<exists>h'. Collection_persist (Suc n) h c = Inr (h', True) \<and>
            getCollection h' c = Inr (C\<lparr>cleanC := True, persistedC := ps\<rparr>) \<and>
            fired h' = fired h @ [(c, ''persist'')] \<and>
            Collection_persist k h' c = Inr (h', False)"
    using a o by (simp add: Collection_persist_def trigger_quiet del: trigger.simps)
qed

lemmas example_defs = exampleHeap_def memberEvents_def freshModel_def exampleSet_def exampleOwner_def
  emptyEvents_def

lemma example_objs [simp]:
  "getModel exampleHeap 0 = Inr (freshModel ''a'')"
  "getModel exampleHeap (Suc 0) = Inr (freshModel ''b'')"
  "getCollection exampleHeap 2 = Inr exampleSet"
  "getModel exampleHeap 3 = Inr exampleOwner"
  by (simp_all add: exampleHeap_def getModel_def getCollection_def)

lemma example_pk [simp]:
  "pk exampleHeap 0 = Inr (Str ''a'')" "pk exampleHeap (Suc 0) = Inr (Str ''b'')"
  "persisted_pk exampleHeap 0 = Inr Undefined" "persisted_pk exampleHeap (Suc 0) = Inr Undefined"
  by (simp_all add: exampleHeap_def pk_def persisted_pk_def freshModel_def)

lemma example_subscribers [simp]:
  "subscribers exampleHeap 2 ''change'' = [Some (ModelChange 3 ''foos'')]"
  "subscribers exampleHeap 2 ''persist'' = []"
  "subscribers exampleHeap 2 ''remove'' = []"
  "subscribers exampleHeap 2 ''append'' = []"
  "subscribers exampleHeap 3 name = []"
  by (simp_all add: exampleHeap_def subscribers_def emptyEvents_def)

lemma example_flags [simp]:
  "\<not> clean exampleOwner" "\<not> cleanC exampleSet" "models exampleSet = [0, Suc 0]"
  "persistedC exampleSet = []" "fired exampleHeap = []" "calls exampleHeap = []"
  by (simp_all add: exampleOwner_def exampleSet_def exampleHeap_def)

lemma example_quiet [simp]:
  "quiet exampleHeap 2 ''persist''" "quiet exampleHeap 2 ''remove''" "quiet exampleHeap 2 ''append''"
  "quiet exampleHeap 3 name"
  by (simp_all add: quiet_def) (simp_all add: exampleHeap_def)

theorem persist_twice_witness:
  "(\<exists>h'. Model_persist 1 exampleHeap 3 = Inr (h', True) \<and>
         getModel h' 3 = Inr (exampleOwner\<lparr>clean := True,
                                persisted := persisted exampleOwner ++ fieldsM exampleOwner\<rparr>) \<and>
         fired h' = [(3, ''persist'')] \<and>
         Model_persist 1 h' 3 = Inr (h', False))
   \<and> (\<exists>h'. Collection_persist 1 exampleHeap 2 = Inr (h', True) \<and>
            getCollection h' 2 = Inr (exampleSet\<lparr>cleanC := True, persistedC := [Str ''a'', Str ''b'']\<rparr>) \<and>
            fired h' = [(2, ''persist'')] \<and>
            Collection_persist 1 h' 2 = Inr (h', False))"
  using persist_twice [of exampleHeap 3 exampleOwner 0 1 2 exampleSet "[Str ''a'', Str ''b'']"]
  by simp

section \<open>Model: fields that were never declared\<close>

lemma subscribers_upd [simp]:
  "subscribers (h\<lparr>fired := x\<rparr>) r name = subscribers h r name"
  "subscribers (h\<lparr>calls := y\<rparr>) r name = subscribers h r name"
  by (simp_all add: subscribers_def)

lemma quiet_upd [simp]:
  "quiet (h\<lparr>fired := x\<rparr>) r name = quiet h r name"
  "quiet (h\<lparr>calls := y\<rparr>) r name = quiet h r name"
  by (simp_all add: quiet_def)

lemma spies_upd [simp]:
  "spies (h\<lparr>fired := x\<rparr>) r name = spies h r name"
  "spies (h\<lparr>calls := y\<rparr>) r name = spies h r name"
  by (simp_all add: spies_def)

text \<open>
  C8, as the code has it. There is no \<^verbatim>\<open>UnknownField\<close>: for a name the constructor did not
  see (no entry in \<^verbatim>\<open>fields\<close> nor in \<^verbatim>\<open>mappedEvents\<close>), \<^verbatim>\<open>get\<close> returns \<^verbatim>\<open>undefined\<close>;
  \<^verbatim>\<open>set\<close> with a value that is not an \<^verbatim>\<open>Events\<close> instance stores the value, marks the
  model dirty and triggers \<^verbatim>\<open>change\<close> and \<^verbatim>\<open>change:name\<close>; \<^verbatim>\<open>set\<close> with an \<^verbatim>\<open>Events\<close>
  instance throws a \<^verbatim>\<open>TypeError\<close>.
\<close>

theorem undeclared_field:
  assumes "getModel h this = Inr M"
    and "fieldsM M property = None" and "mappedEvents M property = None"
  shows "Model_get h this property = Inr Undefined \<and>
         Model_set k h this property (Ref v) = Inl TypeError \<and>
         ((\<forall>v. x \<noteq> Ref v) \<and> quiet h this ''change'' \<and>
          quiet h this (''change:'' @ property) \<longrightarrow>
            (\<exists>h'. Model_set (Suc n) h this property x = Inr h' \<and>
                  Model_get h' this property = Inr x \<and>
                  getModel h' this =
                    Inr (M\<lparr>fieldsM := (fieldsM M)(property \<mapsto> x), clean := False\<rparr>) \<and>
                  fired h' = fired h @ [(this, ''change''), (this, ''change:'' @ property)]))"
proof (intro conjI impI)
  show g: "Model_get h this property = Inr Undefined"
    using assms by (simp add: Model_get_def)
  show "Model_set k h this property (Ref v) = Inl TypeError"
    using assms g by (simp add: Model_set_def)
next
  assume a: "(\<forall>v. x \<noteq> Ref v) \<and> quiet h this ''change'' \<and>
          quiet h this (''change:'' @ property)"
  have g: "Model_get h this property = Inr Undefined"
    using assms by (simp add: Model_get_def)
  have o: "objs h this \<noteq> None" using assms(1) by (rule getModel_objs)
  have v: "(case x of Ref v \<Rightarrow> f v | _ \<Rightarrow> d) = d" for f :: "ref \<Rightarrow> error + heap" and d
    using a by (cases "x") auto
  show "\<exists>h'. Model_set (Suc n) h this property x = Inr h' \<and>
                  Model_get h' this property = Inr x \<and>
                  getModel h' this =
                    Inr (M\<lparr>fieldsM := (fieldsM M)(property \<mapsto> x), clean := False\<rparr>) \<and>
                  fired h' = fired h @ [(this, ''change''), (this, ''change:'' @ property)]"
    using assms a o
    by (simp add: Model_set_def g v trigger_quiet Model_get_def del: trigger.simps)
qed

text \<open>
  On the example store \<^verbatim>\<open>get('nope')\<close> returns \<^verbatim>\<open>undefined\<close> and \<^verbatim>\<open>set('nope', 5)\<close>
  returns normally: neither fails.
\<close>

theorem undeclared_field_no_error:
  "Model_get exampleHeap 3 ''nope'' = Inr Undefined \<and>
   \<not> isl (Model_set 1 exampleHeap 3 ''nope'' (Num 5))"
  by (simp add: scenario_defs example_defs)

theorem undeclared_field_witness:
  "Model_get exampleHeap 3 ''nope'' = Inr Undefined \<and>
   Model_set 1 exampleHeap 3 ''nope'' (Ref 2) = Inl TypeError \<and>
   (\<exists>h'. Model_set 1 exampleHeap 3 ''nope'' (Str ''x'') = Inr h' \<and>
         Model_get h' 3 ''nope'' = Inr (Str ''x'') \<and>
         fired h' = [(3, ''change''), (3, ''change:nope'')])"
proof -
  have "fieldsM exampleOwner ''nope'' = None" "mappedEvents exampleOwner ''nope'' = None"
    by (simp_all add: exampleOwner_def)
  then show ?thesis
    using undeclared_field [where h = exampleHeap and this = 3 and M = exampleOwner and property = "''nope''"
        and k = 1 and v = 2 and x = "Str ''x''" and n = 0]
    by simp blast
qed

section \<open>Arrays\<close>



lemma indexOf_nth: "x \<in> set xs \<Longrightarrow> 0 \<le> indexOf xs x \<and> xs ! nat (indexOf xs x) = x"
proof (induction xs)
  case Nil
  then show ?case by simp
next
  case (Cons y ys)
  show ?case
  proof (cases "y = x")
    case True
    then show ?thesis by simp
  next
    case False
    with Cons.prems have "x \<in> set ys" by simp
    with Cons.IH have "0 \<le> indexOf ys x" "ys ! nat (indexOf ys x) = x" by simp_all
    then show ?thesis using False by (simp add: Let_def nat_add_distrib)
  qed
qed




lemma take_drop_inserted:
  "j \<le> length ys \<Longrightarrow>
   take j (take j ys @ x # drop j ys) @ drop (Suc j) (take j ys @ x # drop j ys) = ys"
  by (simp add: min_absorb2)

lemma reinsert_rest:
  assumes "i < length xs" "j < length xs"
  shows "take j (reinsert xs i j) @ drop (Suc j) (reinsert xs i j) = take i xs @ drop (Suc i) xs"
proof -
  have "j \<le> length (take i xs @ drop (Suc i) xs)" using assms by simp
  from take_drop_inserted [OF this] show ?thesis by (simp add: reinsert_def Let_def)
qed

lemma reinsert_length:
  "i < length xs \<Longrightarrow> j < length xs \<Longrightarrow> length (reinsert xs i j) = length xs"
  by (auto simp: reinsert_def Let_def min_def)

lemma reinsert_nth:
  "i < length xs \<Longrightarrow> j < length xs \<Longrightarrow> reinsert xs i j ! j = xs ! i"
  by (auto simp: reinsert_def Let_def nth_append min_def)

section \<open>Collection: rebuilding the index\<close>

lemma pk_error: "pk h m = Inl e \<Longrightarrow> e = TypeError"
  by (auto simp: pk_def split: option.splits body.splits)

lemma persisted_pk_error: "persisted_pk h m = Inl e \<Longrightarrow> e = TypeError"
  by (auto simp: persisted_pk_def split: option.splits body.splits)

lemma rebuild_error: "rebuild h old ms i acc = Inl e \<Longrightarrow> e = TypeError"
proof (induction h old ms i acc rule: rebuild.induct)
  case (1 h old i acc)
  then show ?case by simp
next
  case (2 h old m ms i newMap st)
  then show ?case
    by (auto split: sum.splits option.splits dest: pk_error persisted_pk_error)
qed

lemma lookupKey_Inr:
  "lookupKey h m = Inr k \<longleftrightarrow>
     (\<exists>p pp. pk h m = Inr p \<and> persisted_pk h m = Inr pp \<and>
             k = toPropertyKey (if truthy pp then pp else p))"
  by (auto simp: lookupKey_def andThen_eq_Inr)


lemma rebuild_stuck:
  "m \<in> set ms \<Longrightarrow> lookupKey h m = Inr k \<Longrightarrow> old k = None \<Longrightarrow>
   rebuild h old ms i acc = Inl TypeError"
proof (induction ms arbitrary: i acc)
  case Nil
  then show ?case by simp
next
  case (Cons x xs)
  obtain nm st where acc: "acc = (nm, st)" by (cases acc)
  show ?case
  proof (cases "rebuild h old (x # xs) i acc")
    case (Inl e)
    then show ?thesis by (simp add: rebuild_error)
  next
    case (Inr res)
    then obtain p pp a meta where
      x: "pk h x = Inr p" "persisted_pk h x = Inr pp"
         "old (toPropertyKey (if truthy pp then pp else p)) = Some a" "st a = Some meta"
      and r: "rebuild h old xs (i + 1) (nm(toPropertyKey p \<mapsto> a), st(a \<mapsto> meta\<lparr>index := i\<rparr>)) = Inr res"
      unfolding acc by (auto split: sum.splits option.splits simp del: truthy.simps)
    have "m \<noteq> x" using x Cons.prems(2,3) by (auto simp: lookupKey_Inr)
    then have "m \<in> set xs" using Cons.prems(1) by simp
    from Cons.IH [OF this Cons.prems(2,3)] r show ?thesis by simp
  qed
qed


lemma pk_putBody_Collection:
  "getCollection h c = Inr C \<Longrightarrow> pk (putBody h c (CollectionB C')) m = pk h m"
  by (auto simp: getCollection_Inr pk_def putBody_def)

lemma persisted_pk_putBody_Collection:
  "getCollection h c = Inr C \<Longrightarrow>
   persisted_pk (putBody h c (CollectionB C')) m = persisted_pk h m"
  by (auto simp: getCollection_Inr persisted_pk_def putBody_def)

lemma lookupKey_putBody_Collection:
  "getCollection h c = Inr C \<Longrightarrow> lookupKey (putBody h c (CollectionB C')) m = lookupKey h m"
  by (simp add: lookupKey_def pk_putBody_Collection persisted_pk_putBody_Collection)

lemma rebuildMap_Inr:
  "rebuildMap h c = Inr h' \<longleftrightarrow>
     (\<exists>C nm st. getCollection h c = Inr C \<and>
        rebuild h (modelMap C) (models C) 0 (Map.empty, metas C) = Inr (nm, st) \<and>
        h' = putBody h c (CollectionB (C\<lparr>modelMap := nm, metas := st\<rparr>)))"
  by (auto simp: rebuildMap_def andThen_eq_Inr)


lemma frame_getModel:
  "frame h h' \<Longrightarrow> getModel h r = Inr M \<Longrightarrow>
   \<exists>M'. getModel h' r = Inr M' \<and> fieldsM M' = fieldsM M \<and> mappedEvents M' = mappedEvents M \<and>
        persisted M' = persisted M \<and> (clean M' \<longrightarrow> clean M)"
  unfolding frame_def getModel_Inr
  apply (elim conjE exE)
  apply (erule_tac x=r in allE)
  apply (auto split: option.splits body.splits)
  done



section \<open>Collection: moving\<close>



lemma example4_objs [simp]:
  "getCollection exampleHeap4 4 = Inr exampleSet4"
  "pk exampleHeap4 0 = Inr (Str ''a'')" "pk exampleHeap4 (Suc 0) = Inr (Str ''b'')"
  "pk exampleHeap4 2 = Inr (Str ''c'')" "pk exampleHeap4 3 = Inr (Str ''d'')"
  "pk exampleHeap4 5 = Inr (Str ''z'')" "pk exampleHeap4 6 = Inr (Str ''a'')"
  "fired exampleHeap4 = []"
  by (simp_all add: exampleHeap4_def getCollection_def pk_def freshModel_def)

lemma example4_lookupKey [simp]:
  "lookupKey exampleHeap4 0 = Inr ''a''" "lookupKey exampleHeap4 (Suc 0) = Inr ''b''"
  "lookupKey exampleHeap4 2 = Inr ''c''" "lookupKey exampleHeap4 3 = Inr ''d''"
  by (simp_all add: lookupKey_def) (simp_all add: exampleHeap4_def persisted_pk_def freshModel_def)

lemma example4_set [simp]:
  "models exampleSet4 = [0, Suc 0, 2, 3]"
  "persistedC exampleSet4 = [Str ''a'', Str ''b'', Str ''c'', Str ''d'']"
  "modelMap exampleSet4 ''a'' = Some 0" "modelMap exampleSet4 ''b'' = Some (Suc 0)"
  "modelMap exampleSet4 ''c'' = Some 2" "modelMap exampleSet4 ''d'' = Some 3"
  "metas exampleSet4 0 = Some \<lparr>index = 0, change = 1, changePK = 2\<rparr>"
  "metas exampleSet4 (Suc 0) = Some \<lparr>index = 1, change = 1, changePK = 2\<rparr>"
  "metas exampleSet4 2 = Some \<lparr>index = 2, change = 1, changePK = 2\<rparr>"
  "metas exampleSet4 3 = Some \<lparr>index = 3, change = 1, changePK = 2\<rparr>"
  by (simp_all add: exampleSet4_def)

lemma example4_quiet [simp]: "quiet exampleHeap4 4 name"
  by (simp add: quiet_def subscribers_def) (simp add: exampleHeap4_def emptyEvents_def)


section \<open>Collection: removing a record that is not a member\<close>




section \<open>Collection: a member's pk changes\<close>

lemma call_preserves:
  assumes "\<And>h x. P h \<Longrightarrow> P (h\<lparr>fired := fired h @ [x]\<rparr>)"
    and "\<And>h k. P h \<Longrightarrow> P (h\<lparr>calls := calls h @ [k]\<rparr>)"
    and "\<And>h r M. P h \<Longrightarrow> getModel h r = Inr M \<Longrightarrow> P (putBody h r (ModelB (M\<lparr>clean := False\<rparr>)))"
    and "\<And>h r C ps. P h \<Longrightarrow> getCollection h r = Inr C \<Longrightarrow>
               P (putBody h r (CollectionB (C\<lparr>cleanC := False, persistedC := ps\<rparr>)))"
    and "\<And>h r h'. P h \<Longrightarrow> rebuildMap h r = Inr h' \<Longrightarrow> P h'"
    and "P h" and "call n h cb = Inr h'"
  shows "P h'"
proof -
  have "\<forall>h'. P h \<longrightarrow> call n h cb = Inr h' \<longrightarrow> P h'"
    apply (rule trigger_preserves_aux(3) [where P = P])
        apply (erule assms(1))
       apply (erule assms(2))
      apply (erule (1) assms(3))
     apply (erule (1) assms(4))
    apply (erule (1) assms(5))
    done
  then show ?thesis using assms(6,7) by blast
qed

lemma call_frame: "call n h cb = Inr h' \<Longrightarrow> frame h h'"
proof (rule call_preserves [where P = "frame h"])
  show "frame h h" by simp
next
  fix a x assume "frame h a"
  then show "frame h (a\<lparr>fired := fired a @ [x]\<rparr>)"
    by (rule frame_trans) simp
next
  fix a k assume "frame h a"
  then show "frame h (a\<lparr>calls := calls a @ [k]\<rparr>)"
    by (rule frame_trans) simp
next
  fix a r M assume "frame h a" "getModel a r = Inr M"
  then show "frame h (putBody a r (ModelB (M\<lparr>clean := False\<rparr>)))"
    by (elim frame_trans) (auto simp: getModel_Inr intro!: frame_putBody)
next
  fix a r C ps assume "frame h a" "getCollection a r = Inr C"
  then show "frame h (putBody a r (CollectionB (C\<lparr>cleanC := False, persistedC := ps\<rparr>)))"
    by (elim frame_trans) (auto simp: getCollection_Inr intro!: frame_putBody)
next
  fix a r b assume "frame h a" "rebuildMap a r = Inr b"
  then show "frame h b"
    by (blast intro: frame_trans rebuildMap_frame)
qed

lemma frame_objs:
  "frame h h' \<Longrightarrow> objs h r = Some ob \<Longrightarrow> \<exists>ob'. objs h' r = Some ob' \<and> ev ob' = ev ob"
  unfolding frame_def
  apply (elim conjE)
  apply (erule_tac x=r in allE)
  apply (auto split: option.splits)
  done

lemma frame_subscribers: "frame h h' \<Longrightarrow> subscribers h' r name = subscribers h r name"
  unfolding frame_def subscribers_def
  apply (elim conjE)
  apply (erule_tac x=r in allE)
  apply (auto split: option.splits)
  done

lemma pk_upd [simp]:
  "pk (h\<lparr>fired := x\<rparr>) m = pk h m" "pk (h\<lparr>calls := y\<rparr>) m = pk h m"
  "persisted_pk (h\<lparr>fired := x\<rparr>) m = persisted_pk h m"
  "persisted_pk (h\<lparr>calls := y\<rparr>) m = persisted_pk h m"
  "lookupKey (h\<lparr>fired := x\<rparr>) m = lookupKey h m"
  "lookupKey (h\<lparr>calls := y\<rparr>) m = lookupKey h m"
  by (simp_all add: pk_def persisted_pk_def lookupKey_def)

lemma pk_putBody_Model:
  "getModel h r = Inr M \<Longrightarrow> fieldsM M' ''pk'' = fieldsM M ''pk'' \<Longrightarrow>
   pk (putBody h r (ModelB M')) x = pk h x"
  by (auto simp: getModel_Inr pk_def putBody_def)

lemma persisted_pk_putBody_Model:
  "getModel h r = Inr M \<Longrightarrow> persisted M' ''pk'' = persisted M ''pk'' \<Longrightarrow>
   persisted_pk (putBody h r (ModelB M')) x = persisted_pk h x"
  by (auto simp: getModel_Inr persisted_pk_def putBody_def)

lemma lookupKey_putBody_Model:
  "getModel h r = Inr M \<Longrightarrow> fieldsM M' ''pk'' = fieldsM M ''pk'' \<Longrightarrow>
   persisted M' ''pk'' = persisted M ''pk'' \<Longrightarrow>
   lookupKey (putBody h r (ModelB M')) x = lookupKey h x"
  by (simp add: lookupKey_def pk_putBody_Model persisted_pk_putBody_Model)

lemma Model_not_Collection: "getModel h r = Inr M \<Longrightarrow> getCollection h c = Inr C \<Longrightarrow> r \<noteq> c"
  by (auto simp: getModel_Inr getCollection_Inr)

lemma rebuildMap_stuck:
  "getCollection h c = Inr C \<Longrightarrow> m \<in> set (models C) \<Longrightarrow> lookupKey h m = Inr k \<Longrightarrow>
   modelMap C k = None \<Longrightarrow> rebuildMap h c = Inl TypeError"
  by (simp add: rebuildMap_def rebuild_stuck)

lemma stuck_rebuildMap: "stuck c m h \<Longrightarrow> rebuildMap h c = Inl TypeError"
  by (auto simp: stuck_def intro: rebuildMap_stuck)

lemma stuck_steps:
  "stuck c m h \<Longrightarrow> stuck c m (h\<lparr>fired := fired h @ [x]\<rparr>)"
  "stuck c m h \<Longrightarrow> stuck c m (h\<lparr>calls := calls h @ [k]\<rparr>)"
  "stuck c m h \<Longrightarrow> getModel h r = Inr M \<Longrightarrow> stuck c m (putBody h r (ModelB (M\<lparr>clean := False\<rparr>)))"
  "stuck c m h \<Longrightarrow> getCollection h r = Inr C \<Longrightarrow>
     stuck c m (putBody h r (CollectionB (C\<lparr>cleanC := False, persistedC := ps\<rparr>)))"
  "stuck c m h \<Longrightarrow> rebuildMap h r = Inr h' \<Longrightarrow> stuck c m h'"
proof -
  show "stuck c m h \<Longrightarrow> stuck c m (h\<lparr>fired := fired h @ [x]\<rparr>)"
    by (simp add: stuck_def)
  show "stuck c m h \<Longrightarrow> stuck c m (h\<lparr>calls := calls h @ [k]\<rparr>)"
    by (simp add: stuck_def)
  show "stuck c m h \<Longrightarrow> getModel h r = Inr M \<Longrightarrow> stuck c m (putBody h r (ModelB (M\<lparr>clean := False\<rparr>)))"
    unfolding stuck_def
    by (auto simp: lookupKey_putBody_Model dest: Model_not_Collection)
  show "stuck c m h \<Longrightarrow> getCollection h r = Inr C \<Longrightarrow>
     stuck c m (putBody h r (CollectionB (C\<lparr>cleanC := False, persistedC := ps\<rparr>)))"
    unfolding stuck_def
    by (cases "r = c") (auto simp: lookupKey_putBody_Collection dest: getCollection_objs)
  show "stuck c m h \<Longrightarrow> rebuildMap h r = Inr h' \<Longrightarrow> stuck c m h'"
  proof -
    assume s: "stuck c m h" and r: "rebuildMap h r = Inr h'"
    have "r \<noteq> c" using stuck_rebuildMap [OF s] r by auto
    then show "stuck c m h'" using s r unfolding stuck_def rebuildMap_Inr
      by (auto simp: lookupKey_putBody_Collection)
  qed
qed

lemma trigger_stuck: "stuck c m h \<Longrightarrow> trigger n h r name = Inr h' \<Longrightarrow> stuck c m h'"
  by (rule trigger_preserves [where P = "stuck c m"]) (auto intro: stuck_steps)

lemma call_stuck: "stuck c m h \<Longrightarrow> call n h cb = Inr h' \<Longrightarrow> stuck c m h'"
  by (rule call_preserves [where P = "stuck c m"]) (auto intro: stuck_steps)

lemma forEach_stuck:
  "stuck c m h \<Longrightarrow> objs h r = Some ob \<Longrightarrow> e \<in> set es \<Longrightarrow>
   events (ev ob) e = Some (CollectionChangePK c) \<Longrightarrow> isl (forEach_evts n h r es)"
proof (induction es arbitrary: h ob)
  case Nil
  then show ?case by simp
next
  case (Cons e0 es)
  show ?case
  proof (cases "events (ev ob) e0")
    case None
    then show ?thesis using Cons.prems by simp
  next
    case (Some f)
    show ?thesis
    proof (cases "call n h f")
      case (Inl x)
      then show ?thesis using Cons.prems Some by simp
    next
      case (Inr h')
      have s': "stuck c m h'" using Cons.prems(1) Inr by (rule call_stuck)
      from frame_objs [OF call_frame [OF Inr] Cons.prems(2)]
      obtain ob' where ob': "objs h' r = Some ob'" "ev ob' = ev ob" by blast
      have "e0 \<noteq> e"
      proof
        assume "e0 = e"
        then have "f = CollectionChangePK c" using Some Cons.prems(4) by simp
        then show False using Inr stuck_rebuildMap [OF Cons.prems(1)] by simp
      qed
      then have "e \<in> set es" using Cons.prems(3) by simp
      from Cons.IH [OF s' ob'(1) this] Cons.prems(4) ob'(2)
      have "isl (forEach_evts n h' r es)" by simp
      then show ?thesis using Cons.prems(2) Some Inr by simp
    qed
  qed
qed

lemma trigger_stuck_fails:
  assumes "stuck c m h" "Some (CollectionChangePK c) \<in> set (subscribers h r name)"
  shows "isl (trigger n h r name)"
proof (cases n)
  case 0
  then show ?thesis by simp
next
  case (Suc k)
  from assms(2) obtain ob where ob: "objs h r = Some ob"
    by (cases "objs h r") (auto simp: subscribers_def)
  let ?l = "case map_e (ev ob) name of None \<Rightarrow> [] | Some l \<Rightarrow> l"
  have "Some (CollectionChangePK c) \<in> events (ev ob) ` set ?l"
    using assms(2) ob by (simp add: subscribers_def)
  then obtain e where e0: "Some (CollectionChangePK c) = events (ev ob) e" "e \<in> set ?l"
    by (rule imageE)
  note e = e0(2) e0(1) [symmetric]
  have s: "stuck c m (h\<lparr>fired := fired h @ [(r, name)]\<rparr>)" using assms(1) by (rule stuck_steps)
  have "isl (forEach_evts k (h\<lparr>fired := fired h @ [(r, name)]\<rparr>) r
          (case map_e (ev ob) name of None \<Rightarrow> [] | Some l \<Rightarrow> l))"
    by (rule forEach_stuck [OF s _ e]) (simp add: ob)
  then show ?thesis using Suc ob by simp
qed

text \<open>
  C10. \<^verbatim>\<open>rebuildMap\<close> looks a member up under \<^verbatim>\<open>m.persisted['pk'] || m.pk\<close>. For a member
  that was never persisted (its persisted pk is \<^verbatim>\<open>undefined\<close>) and a new pk whose key has
  no entry in the index: once \<^verbatim>\<open>set\<close> has stored the new pk the look-up key is the new
  key, the handler of \<^verbatim>\<open>change:pk\<close> throws a \<^verbatim>\<open>TypeError\<close>, and \<^verbatim>\<open>set('pk', v)\<close> as a
  whole fails at every call depth when that handler is subscribed (for a pk that is not
  itself an \<^verbatim>\<open>Events\<close> instance).
\<close>

theorem changePK_rebuild_fails:
  assumes C: "getCollection h c = Inr C" and mem: "m \<in> set (models C)"
    and M: "getModel h m = Inr M"
    and np: "persisted_pk h m = Inr Undefined"
    and new: "modelMap C (toPropertyKey v) = None"
  shows "lookupKey (putBody h m (ModelB (M\<lparr>fieldsM := (fieldsM M)(''pk'' \<mapsto> v), clean := False\<rparr>))) m
           = Inr (toPropertyKey v) \<and>
         call n (putBody h m (ModelB (M\<lparr>fieldsM := (fieldsM M)(''pk'' \<mapsto> v), clean := False\<rparr>)))
           (CollectionChangePK c) = Inl TypeError \<and>
         ((\<forall>r. v \<noteq> Ref r) \<and> (\<forall>r. fieldsM M ''pk'' \<noteq> Some (Ref r)) \<and>
          Some (CollectionChangePK c) \<in> set (subscribers h m ''change:pk'') \<longrightarrow>
            isl (Model_set k h m ''pk'' v))"
proof -
  let ?h1 = "putBody h m (ModelB (M\<lparr>fieldsM := (fieldsM M)(''pk'' \<mapsto> v), clean := False\<rparr>))"
  have o: "objs h m \<noteq> None" using M by (rule getModel_objs)
  have mc: "m \<noteq> c" using M C by (rule Model_not_Collection)
  have p1: "pk ?h1 m = Inr v" using M by (auto simp: getModel_Inr pk_def putBody_def)
  have pp1: "persisted_pk ?h1 m = Inr Undefined"
    using persisted_pk_putBody_Model [OF M, of "M\<lparr>fieldsM := (fieldsM M)(''pk'' \<mapsto> v), clean := False\<rparr>" m] np
    by simp
  have lk: "lookupKey ?h1 m = Inr (toPropertyKey v)"
    by (simp add: lookupKey_def p1 pp1)
  have C1: "getCollection ?h1 c = Inr C" using C mc by simp
  have st: "stuck c m ?h1" unfolding stuck_def using C1 mem lk new by blast
  show ?thesis
  proof (intro conjI impI)
    show "lookupKey ?h1 m = Inr (toPropertyKey v)" by (rule lk)
    show "call n ?h1 (CollectionChangePK c) = Inl TypeError"
      using stuck_rebuildMap [OF st] by simp
  next
    assume a: "(\<forall>r. v \<noteq> Ref r) \<and> (\<forall>r. fieldsM M ''pk'' \<noteq> Some (Ref r)) \<and>
          Some (CollectionChangePK c) \<in> set (subscribers h m ''change:pk'')"
    have cur: "(case (case fieldsM M ''pk'' of None \<Rightarrow> Undefined | Some x \<Rightarrow> x) of
                 Ref r \<Rightarrow> f r | _ \<Rightarrow> d) = d" for f :: "ref \<Rightarrow> error + heap" and d
      using a by (auto split: option.splits val.splits)
    have val: "(case v of Ref r \<Rightarrow> f r | _ \<Rightarrow> d) = d" for f :: "ref \<Rightarrow> error + heap" and d
      using a by (cases v) auto
    have ms: "Model_set k h m ''pk'' v =
        andThen (trigger k ?h1 m ''change'') (\<lambda>h3. trigger k h3 m ''change:pk'')"
      using M by (simp add: Model_set_def Model_get_def cur val del: trigger.simps)
    show "isl (Model_set k h m ''pk'' v)"
    proof (cases "trigger k ?h1 m ''change''")
      case (Inl x)
      then show ?thesis by (simp add: ms)
    next
      case (Inr h3)
      have s3: "stuck c m h3" using st Inr by (rule trigger_stuck)
      have "subscribers h3 m ''change:pk'' = subscribers h m ''change:pk''"
        using frame_subscribers [OF trigger_frame [OF Inr]] by simp
      then have "isl (trigger k h3 m ''change:pk'')"
        using a by (intro trigger_stuck_fails [OF s3]) simp
      then show ?thesis using Inr by (simp add: ms del: trigger.simps)
    qed
  qed
qed

lemma example_more [simp]:
  "subscribers exampleHeap 0 ''change:pk'' = [Some (CollectionChangePK 2)]"
  "modelMap exampleSet ''z'' = None"
  "fieldsM (freshModel k) ''pk'' = Some (Str k)"
  by (simp_all add: exampleHeap_def subscribers_def memberEvents_def exampleSet_def freshModel_def)

theorem changePK_rebuild_fails_witness:
  "call 1 (putBody exampleHeap 0
        (ModelB ((freshModel ''a'')\<lparr>fieldsM := (fieldsM (freshModel ''a''))(''pk'' \<mapsto> Str ''z''),
                                   clean := False\<rparr>)))
     (CollectionChangePK 2) = Inl TypeError \<and>
   isl (Model_set 5 exampleHeap 0 ''pk'' (Str ''z''))"
  using changePK_rebuild_fails [of exampleHeap 2 exampleSet 0 "freshModel ''a''" "Str ''z''" 1 5]
  by simp

section \<open>Model: changes of a nested collection\<close>

lemma forEach_preserves:
  assumes "\<And>h x. P h \<Longrightarrow> P (h\<lparr>fired := fired h @ [x]\<rparr>)"
    and "\<And>h k. P h \<Longrightarrow> P (h\<lparr>calls := calls h @ [k]\<rparr>)"
    and "\<And>h r M. P h \<Longrightarrow> getModel h r = Inr M \<Longrightarrow> P (putBody h r (ModelB (M\<lparr>clean := False\<rparr>)))"
    and "\<And>h r C ps. P h \<Longrightarrow> getCollection h r = Inr C \<Longrightarrow>
               P (putBody h r (CollectionB (C\<lparr>cleanC := False, persistedC := ps\<rparr>)))"
    and "\<And>h r h'. P h \<Longrightarrow> rebuildMap h r = Inr h' \<Longrightarrow> P h'"
    and "P h" and "forEach_evts n h r es = Inr h'"
  shows "P h'"
proof -
  have "\<forall>h'. P h \<longrightarrow> forEach_evts n h r es = Inr h' \<longrightarrow> P h'"
    apply (rule trigger_preserves_aux(2) [where P = P])
        apply (erule assms(1))
       apply (erule assms(2))
      apply (erule (1) assms(3))
     apply (erule (1) assms(4))
    apply (erule (1) assms(5))
    done
  then show ?thesis using assms(6,7) by blast
qed

lemma forEach_frame: "forEach_evts n h r es = Inr h' \<Longrightarrow> frame h h'"
proof (rule forEach_preserves [where P = "frame h"])
  show "frame h h" by simp
next
  fix a x assume "frame h a"
  then show "frame h (a\<lparr>fired := fired a @ [x]\<rparr>)"
    by (rule frame_trans) simp
next
  fix a k assume "frame h a"
  then show "frame h (a\<lparr>calls := calls a @ [k]\<rparr>)"
    by (rule frame_trans) simp
next
  fix a r M assume "frame h a" "getModel a r = Inr M"
  then show "frame h (putBody a r (ModelB (M\<lparr>clean := False\<rparr>)))"
    by (elim frame_trans) (auto simp: getModel_Inr intro!: frame_putBody)
next
  fix a r C ps assume "frame h a" "getCollection a r = Inr C"
  then show "frame h (putBody a r (CollectionB (C\<lparr>cleanC := False, persistedC := ps\<rparr>)))"
    by (elim frame_trans) (auto simp: getCollection_Inr intro!: frame_putBody)
next
  fix a r b assume "frame h a" "rebuildMap a r = Inr b"
  then show "frame h b"
    by (blast intro: frame_trans rebuildMap_frame)
qed

lemma frame_fired_ex: "frame h h' \<Longrightarrow> \<exists>xs. fired h' = fired h @ xs"
  by (simp add: frame_def)

lemma trigger_fired:
  assumes "trigger n h r name = Inr h'"
  shows "\<exists>xs. fired h' = fired h @ (r, name) # xs"
proof (cases n)
  case 0
  then show ?thesis using assms by simp
next
  case (Suc k)
  obtain ob where ob: "objs h r = Some ob"
    using assms Suc by (cases "objs h r") auto
  have "forEach_evts k (h\<lparr>fired := fired h @ [(r, name)]\<rparr>) r
      (case map_e (ev ob) name of None \<Rightarrow> [] | Some evts \<Rightarrow> evts) = Inr h'"
    using assms Suc ob by simp
  from frame_fired_ex [OF forEach_frame [OF this]] show ?thesis by auto
qed

lemma marks_frame:
  assumes "fired ha = fired h @ as" "marks ha hb R f" "frame hb h'"
  shows "marks h h' R f"
proof -
  from assms(2) obtain M xs where M: "getModel hb R = Inr M" "\<not> clean M"
    and xs: "fired hb = fired ha @ xs" "(R, ''change'') \<in> set xs" "(R, ''change:'' @ f) \<in> set xs"
    by (auto simp: marks_def)
  from frame_getModel [OF assms(3) M(1)] M(2)
  obtain M' where "getModel h' R = Inr M'" "\<not> clean M'" by auto
  moreover obtain bs where "fired h' = fired hb @ bs" using frame_fired_ex [OF assms(3)] by blast
  ultimately show ?thesis using xs assms(1) unfolding marks_def
    by (intro conjI exI [of _ M'] exI [of _ "as @ xs @ bs"]) auto
qed

lemma call_ModelChange_marks:
  assumes "call n h (ModelChange R f) = Inr h'"
  shows "marks h h' R f"
proof -
  from assms obtain M h1 where M: "getModel h R = Inr M"
    and t1: "trigger n (putBody h R (ModelB (M\<lparr>clean := False\<rparr>))) R ''change'' = Inr h1"
    and t2: "trigger n h1 R (''change:'' @ f) = Inr h'"
    by (auto split: sum.splits)
  let ?h0 = "putBody h R (ModelB (M\<lparr>clean := False\<rparr>))"
  have o: "objs h R \<noteq> None" using M by (rule getModel_objs)
  have "getModel ?h0 R = Inr (M\<lparr>clean := False\<rparr>)" using o by simp
  from frame_getModel [OF frame_trans [OF trigger_frame [OF t1] trigger_frame [OF t2]] this]
  obtain M' where M': "getModel h' R = Inr M'" "\<not> clean M'" by auto
  from trigger_fired [OF t1] obtain xs where xs: "fired h1 = fired h @ (R, ''change'') # xs"
    by auto
  from trigger_fired [OF t2] obtain ys where "fired h' = fired h1 @ (R, ''change:'' @ f) # ys"
    by auto
  then have "fired h' = fired h @ ((R, ''change'') # xs @ (R, ''change:'' @ f) # ys)"
    using xs by simp
  then show ?thesis using M' unfolding marks_def
    by (intro conjI exI [of _ M'] exI [of _ "(R, ''change'') # xs @ (R, ''change:'' @ f) # ys"]) auto
qed

lemma forEach_runs:
  "forEach_evts n h r es = Inr h' \<Longrightarrow> objs h r = Some ob \<Longrightarrow> e \<in> set es \<Longrightarrow>
   events (ev ob) e = Some cb \<Longrightarrow>
   \<exists>ha hb. frame h ha \<and> call n ha cb = Inr hb \<and> frame hb h'"
proof (induction es arbitrary: h ob)
  case Nil
  then show ?case by simp
next
  case (Cons e0 es)
  from Cons.prems(1,2) obtain f h1 where f: "events (ev ob) e0 = Some f"
    and c: "call n h f = Inr h1" and r: "forEach_evts n h1 r es = Inr h'"
    by (auto split: option.splits sum.splits)
  show ?case
  proof (cases "e0 = e")
    case True
    then have "call n h cb = Inr h1" using f c Cons.prems(4) by simp
    moreover have "frame h1 h'" using r by (rule forEach_frame)
    ultimately show ?thesis using frame_refl by blast
  next
    case False
    then have e: "e \<in> set es" using Cons.prems(3) by simp
    have f1: "frame h h1" using c by (rule call_frame)
    from frame_objs [OF f1 Cons.prems(2)]
    obtain ob' where ob': "objs h1 r = Some ob'" "ev ob' = ev ob" by blast
    from Cons.IH [OF r ob'(1) e] Cons.prems(4) ob'(2)
    obtain ha hb where "frame h1 ha" "call n ha cb = Inr hb" "frame hb h'" by auto
    then show ?thesis using f1 by (blast intro: frame_trans)
  qed
qed

lemma trigger_runs:
  assumes "trigger n h r name = Inr h'" "Some cb \<in> set (subscribers h r name)"
  shows "\<exists>k ha hb. frame h ha \<and> call k ha cb = Inr hb \<and> frame hb h'"
proof (cases n)
  case 0
  then show ?thesis using assms by simp
next
  case (Suc k)
  from assms(2) obtain ob where ob: "objs h r = Some ob"
    by (cases "objs h r") (auto simp: subscribers_def)
  let ?l = "case map_e (ev ob) name of None \<Rightarrow> [] | Some l \<Rightarrow> l"
  let ?h0 = "h\<lparr>fired := fired h @ [(r, name)]\<rparr>"
  have "Some cb \<in> events (ev ob) ` set ?l"
    using assms(2) ob by (simp add: subscribers_def)
  then obtain e where e0: "Some cb = events (ev ob) e" "e \<in> set ?l"
    by (rule imageE)
  have r: "forEach_evts k ?h0 r ?l = Inr h'" using assms(1) Suc ob by simp
  have "objs ?h0 r = Some ob" using ob by simp
  from forEach_runs [OF r this e0(2) e0(1) [symmetric]]
  obtain ha hb where "frame ?h0 ha" "call k ha cb = Inr hb" "frame hb h'" by blast
  moreover have "frame h ?h0" by simp
  ultimately show ?thesis by (blast intro: frame_trans)
qed

lemma trigger_observed:
  assumes "trigger n h S ''change'' = Inr h'" "observes h R f S"
  shows "marks h h' R f"
proof -
  from trigger_runs [OF assms(1)] assms(2)
  obtain k ha hb where a: "frame h ha" "call k ha (ModelChange R f) = Inr hb" "frame hb h'"
    unfolding observes_def by blast
  from frame_fired_ex [OF a(1)] obtain as where "fired ha = fired h @ as" by blast
  from marks_frame [OF this call_ModelChange_marks [OF a(2)] a(3)] show ?thesis .
qed


lemma on_at_Inr:
  "on_at h r name cb = Inr (h', i) \<longleftrightarrow>
     (\<exists>ob. objs h r = Some ob \<and> i = eventIndex (ev ob) + 1 \<and>
           h' = h\<lparr>objs := (objs h)(r \<mapsto> ob\<lparr>ev := fst (Events_on (ev ob) name cb)\<rparr>)\<rparr>)"
  by (auto simp: on_at_def Events_on_def Let_def split: option.splits)

lemma on_at_subscribers_other:
  "on_at h r name cb = Inr (h', i) \<Longrightarrow> r' \<noteq> r \<Longrightarrow> subscribers h' r' nm = subscribers h r' nm"
  by (auto simp: on_at_Inr subscribers_def)

lemma on_at_subscribers_same:
  "on_at h r name cb = Inr (h', i) \<Longrightarrow> Some cb \<in> set (subscribers h' r name)"
  by (auto simp: on_at_Inr subscribers_def Events_on_def Let_def)

lemma on_at_bodies [simp]:
  "on_at h r name cb = Inr (h', i) \<Longrightarrow> getModel h' x = getModel h x"
  "on_at h r name cb = Inr (h', i) \<Longrightarrow> getCollection h' x = getCollection h x"
  "on_at h r name cb = Inr (h', i) \<Longrightarrow> fired h' = fired h"
  by (auto simp: on_at_Inr getModel_def getCollection_def)

lemma Model_persist_subscribers:
  assumes "Model_persist k h R = Inr (h1, b)"
  shows "subscribers h1 r name = subscribers h r name"
proof -
  from assms obtain M where M: "getModel h R = Inr M" by (auto simp: Model_persist_def andThen_eq_Inr)
  show ?thesis
  proof (cases "clean M")
    case True
    then show ?thesis using assms M by (simp add: Model_persist_def)
  next
    case False
    then obtain h' where "trigger k (putBody h R (ModelB (M\<lparr>clean := True,
        persisted := persisted M ++ fieldsM M\<rparr>))) R ''persist'' = Inr h'" "h1 = h'"
      using assms M by (auto simp: Model_persist_def andThen_eq_Inr simp del: trigger.simps)
    then show ?thesis using frame_subscribers [OF trigger_frame] by fastforce
  qed
qed

lemma Model_set_observes:
  assumes "Model_set n h R f (Ref S) = Inr h'"
  shows "observes h' R f S"
proof -
  from assms obtain h1 h2a i M2 M h3 where
    on: "on_at h1 S ''change'' (ModelChange R f) = Inr (h2a, i)"
    and t1: "trigger n (putBody (putBody h2a R (ModelB M2)) R (ModelB M)) R ''change'' = Inr h3"
    and t2: "trigger n h3 R (''change:'' @ f) = Inr h'"
    by (auto simp: Model_set_def andThen_eq_Inr split: option.splits simp del: trigger.simps)
  have "subscribers h' S ''change'' = subscribers h2a S ''change''"
    using frame_subscribers [OF trigger_frame [OF t2]] frame_subscribers [OF trigger_frame [OF t1]]
    by simp
  then show ?thesis using on_at_subscribers_same [OF on] by (simp add: observes_def)
qed

lemma Collection_add_observed:
  assumes ob: "observes h R f S" and m: "getModel h m = Inr Mm"
    and add: "Collection_add n h S m = Inr h'"
  shows "marks h h' R f"
proof -
  from add obtain C h1 ch h2 chpk b hE where
    C: "getCollection h S = Inr C"
    and on1: "on_at (putBody h S (CollectionB (C\<lparr>models := models C @ [m]\<rparr>))) m ''change''
               (CollectionChange S m) = Inr (h1, ch)"
    and on2: "on_at h1 m ''change:pk'' (CollectionChangePK S) = Inr (h2, chpk)"
    and t1: "trigger n (putBody h2 S b) S ''change'' = Inr hE"
    and t2: "trigger n hE S ''append'' = Inr h'"
    by (auto simp: Collection_add_def andThen_eq_Inr simp del: trigger.simps)
  have ne: "S \<noteq> m" using Model_not_Collection [OF m C] by simp
  have "subscribers (putBody h2 S b) S ''change'' = subscribers h S ''change''"
    using on_at_subscribers_other [OF on2 ne] on_at_subscribers_other [OF on1 ne] by simp
  then have "observes (putBody h2 S b) R f S" using ob by (simp add: observes_def)
  from trigger_observed [OF t1 this] have mk: "marks (putBody h2 S b) hE R f" .
  have "fired (putBody h2 S b) = fired h @ []" using on1 on2 by simp
  from marks_frame [OF this mk trigger_frame [OF t2]] show ?thesis .
qed

section \<open>Collection: the index\<close>

lemma keyOf_cong: "pk h' m = pk h m \<Longrightarrow> keyOf h' m = keyOf h m"
  by (simp add: keyOf_def)

lemma lookupKey_cong:
  "pk h' m = pk h m \<Longrightarrow> persisted_pk h' m = persisted_pk h m \<Longrightarrow> lookupKey h' m = lookupKey h m"
  by (simp add: lookupKey_def)















lemma indexed_upd [simp]:
  "indexed (h\<lparr>fired := x\<rparr>) c = indexed h c" "indexed (h\<lparr>calls := y\<rparr>) c = indexed h c"
proof -
  have "keyOf (h\<lparr>fired := x\<rparr>) = keyOf h" "keyOf (h\<lparr>calls := y\<rparr>) = keyOf h"
    "lookupKey (h\<lparr>fired := x\<rparr>) = lookupKey h" "lookupKey (h\<lparr>calls := y\<rparr>) = lookupKey h"
    by (auto simp: keyOf_def fun_eq_iff)
  then show "indexed (h\<lparr>fired := x\<rparr>) c = indexed h c" "indexed (h\<lparr>calls := y\<rparr>) c = indexed h c"
    by (simp_all add: indexed_def)
qed

lemma indexed_getCollection: "indexed h c \<Longrightarrow> \<exists>C. getCollection h c = Inr C"
  by (auto simp: indexed_def)





lemma on_at_pk [simp]:
  "on_at h r name cb = Inr (h', i) \<Longrightarrow> pk h' x = pk h x"
  "on_at h r name cb = Inr (h', i) \<Longrightarrow> persisted_pk h' x = persisted_pk h x"
  by (auto simp: on_at_Inr pk_def persisted_pk_def)












lemma Inr_projr: "\<not> isl r \<Longrightarrow> r = Inr (projr r)"
  by (cases r) simp_all


section \<open>Model: subscribing to a nested collection\<close>

lemma frame_objs_None: "frame h h' \<Longrightarrow> (objs h' r = None) = (objs h r = None)"
  unfolding frame_def
  apply (elim conjE)
  apply (erule_tac x=r in allE)
  apply (auto split: option.splits)
  done

lemma quiet_frame: "frame h h' \<Longrightarrow> quiet h' r name = quiet h r name"
  by (simp add: quiet_def frame_subscribers frame_objs_None)

lemma call_ModelChange_returns:
  assumes "getModel h R = Inr M" "quiet h R ''change''" "quiet h R (''change:'' @ f)"
  shows "\<exists>h'. call (Suc n) h (ModelChange R f) = Inr h'"
  using assms by (simp add: trigger_quiet del: trigger.simps)

lemma forEach_cascade:
  assumes "objs h S = Some ob"
    "\<forall>e\<in>set es. spy_of (events (ev ob) e) \<noteq> None \<or> events (ev ob) e = Some (ModelChange R f)"
    "getModel h R = Inr M" "quiet h R ''change''" "quiet h R (''change:'' @ f)"
  shows "\<exists>h'. forEach_evts (Suc n) h S es = Inr h'"
  using assms
proof (induction es arbitrary: h ob M)
  case Nil
  then show ?case by simp
next
  case (Cons e es)
  have "\<exists>cb h1. events (ev ob) e = Some cb \<and> call (Suc n) h cb = Inr h1"
  proof (cases "events (ev ob) e = Some (ModelChange R f)")
    case True
    then show ?thesis using call_ModelChange_returns [OF Cons.prems(3,4,5)] by blast
  next
    case False
    then have "spy_of (events (ev ob) e) \<noteq> None" using Cons.prems(2) by simp
    then obtain k where "events (ev ob) e = Some (Spy k)"
      by (cases "events (ev ob) e" rule: spy_of.cases) auto
    then show ?thesis by simp
  qed
  then obtain cb h1 where cb: "events (ev ob) e = Some cb" and c: "call (Suc n) h cb = Inr h1"
    by blast
  have f1: "frame h h1" using c by (rule call_frame)
  from frame_objs [OF f1 Cons.prems(1)]
  obtain ob' where ob': "objs h1 S = Some ob'" "ev ob' = ev ob" by blast
  from frame_getModel [OF f1 Cons.prems(3)] obtain M' where M': "getModel h1 R = Inr M'" by blast
  have q: "quiet h1 R ''change''" "quiet h1 R (''change:'' @ f)"
    using Cons.prems(4,5) by (simp_all add: quiet_frame [OF f1])
  have "\<forall>e\<in>set es. spy_of (events (ev ob') e) \<noteq> None \<or> events (ev ob') e = Some (ModelChange R f)"
    using Cons.prems(2) ob'(2) by simp
  from Cons.IH [OF ob'(1) this M' q] obtain h' where "forEach_evts (Suc n) h1 S es = Inr h'"
    by blast
  then show ?case using Cons.prems(1) cb c by simp
qed

lemma trigger_cascade:
  assumes "cascading h S name R f" "getModel h R = Inr M" "quiet h R ''change''"
    "quiet h R (''change:'' @ f)"
  shows "\<exists>h'. trigger (Suc (Suc n)) h S name = Inr h'"
proof -
  from assms(1) obtain ob where ob: "objs h S = Some ob" by (auto simp: cascading_def)
  let ?l = "case map_e (ev ob) name of None \<Rightarrow> [] | Some l \<Rightarrow> l"
  let ?h0 = "h\<lparr>fired := fired h @ [(S, name)]\<rparr>"
  have a: "\<forall>e\<in>set ?l. spy_of (events (ev ob) e) \<noteq> None \<or> events (ev ob) e = Some (ModelChange R f)"
    using assms(1) ob by (auto simp: cascading_def subscribers_def list_all_iff)
  have "\<exists>h'. forEach_evts (Suc n) ?h0 S ?l = Inr h'"
    by (rule forEach_cascade [where ob = ob and M = M]) (use ob a assms in simp_all)
  then show ?thesis using ob by simp
qed


lemma on_at_run:
  "objs h r = Some ob \<Longrightarrow>
   on_at h r name cb =
     Inr (h\<lparr>objs := (objs h)(r \<mapsto> ob\<lparr>ev := fst (Events_on (ev ob) name cb)\<rparr>)\<rparr>,
          eventIndex (ev ob) + 1)"
  by (simp add: on_at_def Events_on_def Let_def)

lemma subscribers_on_at:
  assumes "objs h r = Some ob"
  shows "list_all (\<lambda>c. c = Some cb \<or> c \<in> set (subscribers h r nm))
           (subscribers (h\<lparr>objs := (objs h)(r \<mapsto> ob\<lparr>ev := fst (Events_on (ev ob) name cb)\<rparr>)\<rparr>) r nm)"
  using assms by (auto simp: subscribers_def Events_on_def Let_def list_all_iff split: option.splits)

lemma subscribers_ev_other:
  "r' \<noteq> r \<Longrightarrow> subscribers (h\<lparr>objs := (objs h)(r \<mapsto> ob)\<rparr>) r' nm = subscribers h r' nm"
  by (simp add: subscribers_def)

lemma Model_set_fresh:
  assumes M: "getModel h R = Inr M" "mappedEvents M f = Some es"
    and fresh: "\<forall>c. fieldsM M f \<noteq> Some (Ref c)"
    and S: "objs h S = Some obS" "S \<noteq> R"
    and q: "quiet h R ''change''" "quiet h R (''change:'' @ f)"
  shows "\<exists>h1 M1. Model_set (Suc n) h R f (Ref S) = Inr h1 \<and>
      getModel h1 R = Inr (M\<lparr>mappedEvents := (mappedEvents M)(f \<mapsto> es @ [eventIndex (ev obS) + 1]),
                              fieldsM := (fieldsM M)(f \<mapsto> Ref S), clean := False\<rparr>) \<and>
      (\<forall>x. x \<noteq> R \<longrightarrow> getModel h1 x = getModel h x) \<and>
      (\<forall>x. getCollection h1 x = getCollection h x) \<and>
      (\<forall>x name. x \<noteq> S \<longrightarrow> subscribers h1 x name = subscribers h x name) \<and>
      (\<forall>name. quiet h S name \<longrightarrow> cascading h1 S name R f)"
proof -
  let ?cb = "ModelChange R f"
  let ?i = "eventIndex (ev obS) + 1"
  let ?ha = "h\<lparr>objs := (objs h)(S \<mapsto> obS\<lparr>ev := fst (Events_on (ev obS) ''change'' ?cb)\<rparr>)\<rparr>"
  let ?M1 = "M\<lparr>mappedEvents := (mappedEvents M)(f \<mapsto> es @ [?i])\<rparr>"
  let ?M2 = "?M1\<lparr>fieldsM := (fieldsM M)(f \<mapsto> Ref S), clean := False\<rparr>"
  let ?hc = "putBody ?ha R (ModelB ?M2)"
  let ?hd = "?hc\<lparr>fired := fired ?hc @ [(R, ''change'')], calls := calls ?hc @ spies ?hc R ''change''\<rparr>"
  let ?he = "?hd\<lparr>fired := fired ?hd @ [(R, ''change:'' @ f)],
                 calls := calls ?hd @ spies ?hd R (''change:'' @ f)\<rparr>"
  have on: "on_at h S ''change'' ?cb = Inr (?ha, ?i)" using S(1) by (rule on_at_run)
  have Ma: "getModel ?ha R = Inr M" using M(1) S(2) by (simp add: getModel_def)
  have oa: "objs ?ha R \<noteq> None" using Ma by (rule getModel_objs)
  have sa: "\<And>x name. x \<noteq> S \<Longrightarrow> subscribers ?ha x name = subscribers h x name"
    by (simp add: subscribers_ev_other)
  have qa: "quiet ?ha R ''change''" "quiet ?ha R (''change:'' @ f)"
    using q S(2) oa sa [of R] by (simp_all add: quiet_def)
  have cur: "(case (case fieldsM M f of None \<Rightarrow> Undefined | Some v \<Rightarrow> v) of
               Ref cur \<Rightarrow> X cur | _ \<Rightarrow> Y) = Y" for X and Y :: "error + heap"
    using fresh by (cases "fieldsM M f"; simp split: val.splits)
  have t1: "trigger (Suc n) ?hc R ''change'' = Inr ?hd"
    using qa(1) by (subst trigger_quiet) simp_all
  have t2: "trigger (Suc n) ?hd R (''change:'' @ f) = Inr ?he"
    using qa(2) by (subst trigger_quiet) simp_all
  have run: "Model_set (Suc n) h R f (Ref S) = Inr ?he"
    unfolding Model_set_def Model_get_def
    using M on Ma oa t1 t2 by (simp add: cur del: trigger.simps)
  have g1: "getModel ?he R = Inr ?M2" using oa by simp
  have g2: "\<And>x. x \<noteq> R \<Longrightarrow> getModel ?he x = getModel h x"
    using S(1) by (auto simp: getModel_def putBody_def split: option.splits)
  have g3: "\<And>x. getCollection ?he x = getCollection h x"
    using S(1) M(1) by (auto simp: getCollection_def getModel_def putBody_def split: option.splits body.splits)
  have g4: "\<And>x name. x \<noteq> S \<Longrightarrow> subscribers ?he x name = subscribers h x name"
    using sa by simp
  have g5: "cascading ?he S name R f" if "quiet h S name" for name
  proof -
    have "list_all (\<lambda>c. c = Some ?cb \<or> c \<in> set (subscribers h S name)) (subscribers ?ha S name)"
      using S(1) by (rule subscribers_on_at)
    moreover have "\<forall>c\<in>set (subscribers h S name). spy_of c \<noteq> None"
      using that by (simp add: quiet_def list_all_iff)
    ultimately have "list_all (\<lambda>c. spy_of c \<noteq> None \<or> c = Some ?cb) (subscribers ?ha S name)"
      by (auto simp: list_all_iff)
    moreover have "objs ?he S \<noteq> None" by (simp add: putBody_def split: option.splits)
    ultimately show ?thesis by (simp add: cascading_def)
  qed
  show ?thesis using run g1 g2 g3 g4 g5 by blast
qed


lemma cascading_frame: "frame h h' \<Longrightarrow> cascading h' S name R f = cascading h S name R f"
  by (simp add: cascading_def frame_subscribers frame_objs_None)

lemma objs_putBody_None: "(objs (putBody h r b) x = None) = (objs h x = None)"
  by (simp add: putBody_def split: option.splits)

lemma objs_putBody_other: "x \<noteq> r \<Longrightarrow> objs (putBody h r b) x = objs h x"
  by (simp add: putBody_def split: option.splits)

lemma cascading_putBody [simp]: "cascading (putBody h r b) S name R f = cascading h S name R f"
  by (simp add: cascading_def objs_putBody_None)

lemma cascading_ev_other:
  "r \<noteq> S \<Longrightarrow> cascading (h\<lparr>objs := (objs h)(r \<mapsto> ob)\<rparr>) S name R f = cascading h S name R f"
  by (simp add: cascading_def subscribers_ev_other)

lemma quiet_ev_other:
  "r \<noteq> x \<Longrightarrow> quiet (h\<lparr>objs := (objs h)(r \<mapsto> ob)\<rparr>) x name = quiet h x name"
  by (simp add: quiet_def subscribers_ev_other)

lemma getModel_ev [simp]:
  "objs h r = Some ob \<Longrightarrow> getModel (h\<lparr>objs := (objs h)(r \<mapsto> ob\<lparr>ev := E\<rparr>)\<rparr>) x = getModel h x"
  by (simp add: getModel_def)

lemma getCollection_ev [simp]:
  "objs h r = Some ob \<Longrightarrow>
   getCollection (h\<lparr>objs := (objs h)(r \<mapsto> ob\<lparr>ev := E\<rparr>)\<rparr>) x = getCollection h x"
  by (simp add: getCollection_def)

lemma getCollection_objs_other:
  "r \<noteq> x \<Longrightarrow> getCollection (h\<lparr>objs := (objs h)(r \<mapsto> ob)\<rparr>) x = getCollection h x"
  by (simp add: getCollection_def)

lemma getModel_objs_other:
  "r \<noteq> x \<Longrightarrow> getModel (h\<lparr>objs := (objs h)(r \<mapsto> ob)\<rparr>) x = getModel h x"
  by (simp add: getModel_def)

lemma pk_Model: "getModel h m = Inr Mm \<Longrightarrow> \<exists>p. pk h m = Inr p"
  by (auto simp: getModel_Inr pk_def)

lemma Collection_add_returns:
  assumes C: "getCollection h S = Inr C" and m: "getModel h m = Inr Mm" "m \<noteq> R"
    and M: "getModel h R = Inr M"
    and q: "quiet h R ''change''" "quiet h R (''change:'' @ f)"
    and c: "cascading h S ''change'' R f" "cascading h S ''append'' R f"
  shows "\<exists>h'. Collection_add (Suc (Suc j)) h S m = Inr h'"
proof -
  have mS: "m \<noteq> S" using Model_not_Collection [OF m(1) C] .
  have RS: "R \<noteq> S" using Model_not_Collection [OF M C] .
  obtain obm where obm: "objs h m = Some obm" using m(1) by (auto simp: getModel_Inr)
  let ?C0 = "C\<lparr>models := models C @ [m]\<rparr>"
  let ?h0 = "putBody h S (CollectionB ?C0)"
  let ?cb1 = "CollectionChange S m"
  let ?cb2 = "CollectionChangePK S"
  let ?ob1 = "obm\<lparr>ev := fst (Events_on (ev obm) ''change'' ?cb1)\<rparr>"
  let ?h1 = "?h0\<lparr>objs := (objs ?h0)(m \<mapsto> ?ob1)\<rparr>"
  let ?ob2 = "?ob1\<lparr>ev := fst (Events_on (ev ?ob1) ''change:pk'' ?cb2)\<rparr>"
  let ?h2 = "?h1\<lparr>objs := (objs ?h1)(m \<mapsto> ?ob2)\<rparr>"
  have o0: "objs ?h0 m = Some obm" using obm mS by (simp add: objs_putBody_other)
  have on1: "on_at ?h0 m ''change'' ?cb1 = Inr (?h1, eventIndex (ev obm) + 1)"
    using o0 by (rule on_at_run)
  have o1: "objs ?h1 m = Some ?ob1" by simp
  have on2: "on_at ?h1 m ''change:pk'' ?cb2 = Inr (?h2, eventIndex (ev ?ob1) + 1)"
    using o1 by (rule on_at_run)
  have oS: "objs h S \<noteq> None" using C by (rule getCollection_objs)
  have g0: "getCollection ?h0 S = Inr ?C0" using oS by simp
  have g2: "getCollection ?h2 S = Inr ?C0" using g0 mS by (simp add: getCollection_objs_other)
  have m0: "getModel ?h0 m = Inr Mm" using m(1) mS by simp
  have m2: "getModel ?h2 m = Inr Mm" using m0 o0 by (auto simp: getModel_def)
  from pk_Model [OF m2] obtain p where p: "pk ?h2 m = Inr p" by blast
  let ?C3 = "?C0\<lparr>metas := (metas ?C0)(nextMeta ?C0 \<mapsto>
                        \<lparr>index = length (models C), change = eventIndex (ev obm) + 1,
                         changePK = eventIndex (ev ?ob1) + 1\<rparr>),
             nextMeta := nextMeta ?C0 + 1,
             modelMap := (modelMap ?C0)(toPropertyKey p \<mapsto> nextMeta ?C0),
             cleanC := False\<rparr>"
  let ?h3 = "putBody ?h2 S (CollectionB ?C3)"
  have R0: "getModel ?h0 R = Inr M" using M RS by simp
  have R3: "getModel ?h3 R = Inr M" using R0 m(2) RS by (simp add: getModel_objs_other)
  have q3: "quiet ?h3 R ''change''" "quiet ?h3 R (''change:'' @ f)"
    using q m(2) by (simp_all add: quiet_ev_other)
  have c3: "cascading ?h3 S ''change'' R f" "cascading ?h3 S ''append'' R f"
    using c mS by (simp_all add: cascading_ev_other)
  from trigger_cascade [OF c3(1) R3 q3] obtain h4 where
    t1: "trigger (Suc (Suc j)) ?h3 S ''change'' = Inr h4" by blast
  have f4: "frame ?h3 h4" using t1 by (rule trigger_frame)
  from frame_getModel [OF f4 R3] obtain M4 where R4: "getModel h4 R = Inr M4" by blast
  have q4: "quiet h4 R ''change''" "quiet h4 R (''change:'' @ f)"
    using q3 by (simp_all add: quiet_frame [OF f4])
  have c4: "cascading h4 S ''append'' R f" using c3(2) by (simp add: cascading_frame [OF f4])
  from trigger_cascade [OF c4 R4 q4] obtain h5 where
    t2: "trigger (Suc (Suc j)) h4 S ''append'' = Inr h5" by blast
  have "Collection_add (Suc (Suc j)) h S m = Inr h5"
    unfolding Collection_add_def
    using C on1 on2 p g2 t1 t2 by (simp del: trigger.simps)
  then show ?thesis by blast
qed

lemma cascading_upd [simp]:
  "cascading (h\<lparr>fired := x\<rparr>) S name R f = cascading h S name R f"
  "cascading (h\<lparr>calls := y\<rparr>) S name R f = cascading h S name R f"
  by (simp_all add: cascading_def)

lemma Model_persist_run:
  assumes "getModel h R = Inr M" "\<not> clean M" "quiet h R ''persist''"
  shows "Model_persist (Suc k) h R =
     Inr ((putBody h R (ModelB (M\<lparr>clean := True, persisted := persisted M ++ fieldsM M\<rparr>)))
            \<lparr>fired := fired h @ [(R, ''persist'')], calls := calls h @ spies h R ''persist''\<rparr>, True)"
  using assms by (simp add: Model_persist_def trigger_quiet del: trigger.simps)

lemma quiet_subscribers:
  "subscribers h' r name = subscribers h r name \<Longrightarrow> (objs h' r = None) = (objs h r = None) \<Longrightarrow>
   quiet h' r name = quiet h r name"
  by (simp add: quiet_def)

lemma cascade_chain:
  assumes M: "getModel h R = Inr M" "mappedEvents M f = Some es"
    and fresh: "\<forall>c. fieldsM M f \<noteq> Some (Ref c)"
    and C: "getCollection h S = Inr C" and m: "getModel h m = Inr Mm" "m \<noteq> R"
    and q: "quiet h R ''change''" "quiet h R (''change:'' @ f)" "quiet h R ''persist''"
      "quiet h S ''change''" "quiet h S ''append''"
  shows "\<exists>h1 h2 h3 M2. Model_set (Suc n) h R f (Ref S) = Inr h1 \<and> observes h1 R f S \<and>
        Model_persist (Suc k) h1 R = Inr (h2, True) \<and> getModel h2 R = Inr M2 \<and> clean M2 \<and>
        Collection_add (Suc (Suc j)) h2 S m = Inr h3 \<and> marks h2 h3 R f"
proof -
  have RS: "S \<noteq> R" using Model_not_Collection [OF M(1) C] by simp
  obtain obS where obS: "objs h S = Some obS" using C by (auto simp: getCollection_Inr)
  from Model_set_fresh [OF M fresh obS RS q(1,2), of n]
  obtain h1 M1 where set: "Model_set (Suc n) h R f (Ref S) = Inr h1"
    and M1: "getModel h1 R = Inr M1" "\<not> clean M1"
    and g2: "\<And>x. x \<noteq> R \<Longrightarrow> getModel h1 x = getModel h x"
    and g3: "\<And>x. getCollection h1 x = getCollection h x"
    and g4: "\<And>x name. x \<noteq> S \<Longrightarrow> subscribers h1 x name = subscribers h x name"
    and g5: "\<And>name. quiet h S name \<Longrightarrow> cascading h1 S name R f"
    by auto
  have ob1: "observes h1 R f S" using set by (rule Model_set_observes)
  have oR: "objs h R \<noteq> None" "objs h1 R \<noteq> None"
    using M(1) M1(1) by (auto simp: getModel_Inr)
  have q1: "quiet h1 R ''change''" "quiet h1 R (''change:'' @ f)" "quiet h1 R ''persist''"
    using q(1,2,3) g4 [of R] RS oR by (simp_all add: quiet_def)
  let ?M2 = "M1\<lparr>clean := True, persisted := persisted M1 ++ fieldsM M1\<rparr>"
  let ?h2 = "(putBody h1 R (ModelB ?M2))\<lparr>fired := fired h1 @ [(R, ''persist'')],
      calls := calls h1 @ spies h1 R ''persist''\<rparr>"
  have p: "Model_persist (Suc k) h1 R = Inr (?h2, True)"
    using M1 q1(3) by (rule Model_persist_run)
  have M2: "getModel ?h2 R = Inr ?M2" using oR(2) by simp
  have C2: "getCollection ?h2 S = Inr C" using C g3 [of S] RS by simp
  have m2: "getModel ?h2 m = Inr Mm" using m g2 [of m] by simp
  have q2: "quiet ?h2 R ''change''" "quiet ?h2 R (''change:'' @ f)" using q1 by simp_all
  have c2: "cascading ?h2 S ''change'' R f" "cascading ?h2 S ''append'' R f"
    using g5 q(4,5) by simp_all
  have ob2: "observes ?h2 R f S" using ob1 by (simp add: observes_def)
  from Collection_add_returns [OF C2 m2 m(2) M2 q2 c2, of j]
  obtain h3 where add: "Collection_add (Suc (Suc j)) ?h2 S m = Inr h3" by blast
  have "marks ?h2 h3 R f" using ob2 m2 add by (rule Collection_add_observed)
  then show ?thesis using set ob1 p M2 add by (intro exI [of _ h1] exI [of _ ?h2] exI [of _ h3] exI [of _ ?M2]) simp
qed

text \<open>
  C2. Assigning an \<^verbatim>\<open>Events\<close> value \<open>S\<close> to the field \<open>f\<close> of a record \<open>R\<close> subscribes
  \<open>R\<close>'s callback to \<^verbatim>\<open>change\<close> on \<open>S\<close>. From a store in which the declared field \<open>f\<close> of
  \<open>R\<close> holds no \<^verbatim>\<open>Events\<close> value, \<open>S\<close> is another object and only callbacks of the caller are
  subscribed to \<^verbatim>\<open>change\<close> and \<^verbatim>\<open>change:f\<close> on \<open>R\<close>, the call \<open>R.set(f, S)\<close> returns and the
  callback is subscribed afterwards. When moreover \<open>S\<close> is a collection with only callbacks
  of the caller under \<^verbatim>\<open>change\<close> and \<^verbatim>\<open>append\<close>, and under \<^verbatim>\<open>persist\<close> on \<open>R\<close>, then
  \<open>R.persist()\<close> returns \<^verbatim>\<open>true\<close> and leaves \<open>R\<close> clean, and adding a record \<open>m\<close> other than
  \<open>R\<close> to \<open>S\<close> returns and leaves \<open>R\<close> dirty, with \<^verbatim>\<open>change\<close> and \<^verbatim>\<open>change:f\<close> triggered on
  \<open>R\<close> in between. The callback itself returns, marks \<open>R\<close> dirty and triggers both events.
  In every store, whatever is subscribed, and whenever the calls return: after
  \<open>R.set(f, S)\<close> the callback is subscribed; with it subscribed, after \<open>R.persist()\<close> and
  \<open>S.add(m)\<close> the record \<open>R\<close> is dirty and both events have been triggered on it; and a run
  of the callback marks \<open>R\<close> dirty and triggers both.
\<close>

theorem nested_change_cascades:
  "(getModel h R = Inr M \<and> mappedEvents M f = Some es \<and> (\<forall>c. fieldsM M f \<noteq> Some (Ref c)) \<and>
    objs h S \<noteq> None \<and> S \<noteq> R \<and> quiet h R ''change'' \<and> quiet h R (''change:'' @ f) \<longrightarrow>
      (\<exists>h1. Model_set (Suc n) h R f (Ref S) = Inr h1 \<and> observes h1 R f S)) \<and>
   (getModel h R = Inr M \<and> mappedEvents M f = Some es \<and> (\<forall>c. fieldsM M f \<noteq> Some (Ref c)) \<and>
    getCollection h S = Inr C \<and> getModel h m = Inr Mm \<and> m \<noteq> R \<and>
    quiet h R ''change'' \<and> quiet h R (''change:'' @ f) \<and> quiet h R ''persist'' \<and>
    quiet h S ''change'' \<and> quiet h S ''append'' \<longrightarrow>
      (\<exists>h1 h2 h3 M2. Model_set (Suc n) h R f (Ref S) = Inr h1 \<and> observes h1 R f S \<and>
         Model_persist (Suc k) h1 R = Inr (h2, True) \<and> getModel h2 R = Inr M2 \<and> clean M2 \<and>
         Collection_add (Suc (Suc j)) h2 S m = Inr h3 \<and> marks h2 h3 R f)) \<and>
   (getModel h R = Inr M \<and> quiet h R ''change'' \<and> quiet h R (''change:'' @ f) \<longrightarrow>
      (\<exists>h1. call (Suc n) h (ModelChange R f) = Inr h1 \<and> marks h h1 R f)) \<and>
   (Model_set d h R f (Ref S) = Inr h' \<longrightarrow> observes h' R f S) \<and>
   (observes h R f S \<and> Model_persist d h R = Inr (h', b) \<and> getModel h' m = Inr Mm \<and>
    Collection_add e h' S m = Inr h'' \<longrightarrow> marks h' h'' R f) \<and>
   (call d h (ModelChange R f) = Inr h' \<longrightarrow> marks h h' R f)"
proof (intro conjI impI)
  assume a: "getModel h R = Inr M \<and> mappedEvents M f = Some es \<and>
    (\<forall>c. fieldsM M f \<noteq> Some (Ref c)) \<and>
    objs h S \<noteq> None \<and> S \<noteq> R \<and> quiet h R ''change'' \<and> quiet h R (''change:'' @ f)"
  then obtain obS where obS: "objs h S = Some obS" by blast
  from a have M: "getModel h R = Inr M" "mappedEvents M f = Some es"
    and fr: "\<forall>c. fieldsM M f \<noteq> Some (Ref c)" and RS: "S \<noteq> R"
    and q: "quiet h R ''change''" "quiet h R (''change:'' @ f)" by blast+
  from Model_set_fresh [OF M fr obS RS q, of n]
  obtain h1 where h1: "Model_set (Suc n) h R f (Ref S) = Inr h1" by auto
  then show "\<exists>h1. Model_set (Suc n) h R f (Ref S) = Inr h1 \<and> observes h1 R f S"
    using Model_set_observes by blast
next
  assume a: "getModel h R = Inr M \<and> mappedEvents M f = Some es \<and>
    (\<forall>c. fieldsM M f \<noteq> Some (Ref c)) \<and>
    getCollection h S = Inr C \<and> getModel h m = Inr Mm \<and> m \<noteq> R \<and>
    quiet h R ''change'' \<and> quiet h R (''change:'' @ f) \<and> quiet h R ''persist'' \<and>
    quiet h S ''change'' \<and> quiet h S ''append''"
  then show "\<exists>h1 h2 h3 M2. Model_set (Suc n) h R f (Ref S) = Inr h1 \<and> observes h1 R f S \<and>
         Model_persist (Suc k) h1 R = Inr (h2, True) \<and> getModel h2 R = Inr M2 \<and> clean M2 \<and>
         Collection_add (Suc (Suc j)) h2 S m = Inr h3 \<and> marks h2 h3 R f"
    by (intro cascade_chain) blast+
next
  assume a: "getModel h R = Inr M \<and> quiet h R ''change'' \<and> quiet h R (''change:'' @ f)"
  then obtain h1 where "call (Suc n) h (ModelChange R f) = Inr h1"
    using call_ModelChange_returns [of h R M f n] by blast
  then show "\<exists>h1. call (Suc n) h (ModelChange R f) = Inr h1 \<and> marks h h1 R f"
    using call_ModelChange_marks by blast
next
  assume "Model_set d h R f (Ref S) = Inr h'"
  then show "observes h' R f S" by (rule Model_set_observes)
next
  assume a: "observes h R f S \<and> Model_persist d h R = Inr (h', b) \<and> getModel h' m = Inr Mm \<and>
    Collection_add e h' S m = Inr h''"
  then have "observes h' R f S"
    using Model_persist_subscribers [of d h R h' b S "''change''"] by (simp add: observes_def)
  then show "marks h' h'' R f" using a by (blast intro: Collection_add_observed)
next
  assume "call d h (ModelChange R f) = Inr h'"
  then show "marks h h' R f" by (rule call_ModelChange_marks)
qed

text \<open>The witness starts from the first example store with a new, empty collection (5): the
  record 4 does not observe it.\<close>

lemma walk0_facts:
  "getModel walk0 4 = Inr (freshModel ''c'')" "getModel walk0 0 = Inr (freshModel ''a'')"
  "getCollection walk0 5 = Inr \<lparr>modelMap = Map.empty, metas = Map.empty, nextMeta = 0, models = [],
               persistedC = [], cleanC = False\<rparr>"
  "quiet walk0 4 name" "quiet walk0 5 name" "subscribers walk0 5 name = []"
  by (simp_all add: walk0_def Collection_new_def Let_def exampleHeap_def getModel_def
      getCollection_def quiet_def subscribers_def emptyEvents_def)

theorem nested_change_cascades_witness:
  "\<not> observes walk0 4 ''bar'' 5 \<and>
   (\<exists>h1 h2 h3 M2. Model_set (Suc 0) walk0 4 ''bar'' (Ref 5) = Inr h1 \<and> observes h1 4 ''bar'' 5 \<and>
      Model_persist (Suc 0) h1 4 = Inr (h2, True) \<and> getModel h2 4 = Inr M2 \<and> clean M2 \<and>
      Collection_add (Suc (Suc 0)) h2 5 0 = Inr h3 \<and> marks h2 h3 4 ''bar'') \<and>
   (\<exists>h1. call (Suc 0) walk0 (ModelChange 4 ''bar'') = Inr h1 \<and> marks walk0 h1 4 ''bar'')"
  using nested_change_cascades [where h = walk0 and R = 4 and M = "freshModel ''c''"
      and f = "''bar''" and es = "[]" and S = 5 and m = 0 and Mm = "freshModel ''a''"
      and n = 0 and k = 0 and j = 0
      and C = "\<lparr>modelMap = Map.empty, metas = Map.empty, nextMeta = 0, models = [],
               persistedC = [], cleanC = False\<rparr>"]
  by (simp add: walk0_facts observes_def) (simp add: freshModel_def)

section \<open>Model: unsubscribing from a nested collection\<close>

lemma outside_refl [simp]: "outside A h h"
  by (simp add: outside_def)

lemma outside_trans: "outside A a b \<Longrightarrow> outside A b c \<Longrightarrow> outside A a c"
  unfolding outside_def
  apply (elim conjE exE)
  subgoal for xs ys
    apply (intro conjI)
     apply simp
    apply (rule exI [of _ "xs @ ys"])
    apply auto
    done
  done

lemma outside_putBody: "r \<in> A \<Longrightarrow> outside A h (putBody h r b)"
  by (auto simp: outside_def objs_putBody split: option.splits)

lemma outside_fired: "r \<in> A \<Longrightarrow> outside A h (h\<lparr>fired := fired h @ [(r, name)]\<rparr>)"
  by (simp add: outside_def)

lemma outside_calls: "outside A h (h\<lparr>calls := calls h @ ks\<rparr>)"
  by (simp add: outside_def)

lemma entries_frame: "frame h h' \<Longrightarrow> entries h' = entries h"
proof (rule ext)
  fix r assume f: "frame h h'"
  show "entries h' r = entries h r"
  proof (cases "objs h r")
    case None
    then have "objs h' r = None" using f unfolding frame_def
      by (elim conjE) (erule_tac x=r in allE, simp)
    then show ?thesis using None by (simp add: entries_def)
  next
    case (Some ob)
    from frame_objs [OF f Some] show ?thesis using Some by (auto simp: entries_def)
  qed
qed

lemma entries_putBody [simp]: "entries (putBody h r b) = entries h"
  by (rule ext) (auto simp: entries_def objs_putBody split: option.splits)

lemma entries_upd [simp]:
  "entries (h\<lparr>fired := x\<rparr>) = entries h" "entries (h\<lparr>calls := y\<rparr>) = entries h"
  by (simp_all add: entries_def fun_eq_iff)

lemma closed_simps [simp]:
  "closed (putBody h r b) A = closed h A"
  "closed (h\<lparr>fired := x\<rparr>) A = closed h A"
  "closed (h\<lparr>calls := y\<rparr>) A = closed h A"
  by (simp_all add: closed_def)

lemma closed_frame: "frame h h' \<Longrightarrow> closed h A \<Longrightarrow> closed h' A"
  by (simp add: closed_def entries_frame)

lemma closed_target:
  "closed h A \<Longrightarrow> r \<in> A \<Longrightarrow> objs h r = Some ob \<Longrightarrow> events (ev ob) e = Some cb \<Longrightarrow>
   notified cb \<subseteq> A"
  unfolding closed_def entries_def by fastforce

lemma closed_sub:
  "closed h A \<Longrightarrow> \<forall>r\<in>A. entries h' r \<subseteq> entries h r \<Longrightarrow> closed h' A"
  unfolding closed_def by blast

lemma rebuildMap_outside: "r \<in> A \<Longrightarrow> rebuildMap h r = Inr h' \<Longrightarrow> outside A h h'"
  by (auto simp: rebuildMap_Inr intro: outside_putBody)

lemma outside_aux:
  "closed h A \<longrightarrow> r \<in> A \<longrightarrow> (\<forall>h'. trigger n h r name = Inr h' \<longrightarrow> outside A h h')"
  "closed h A \<longrightarrow> r \<in> A \<longrightarrow> (\<forall>h'. forEach_evts n h r es = Inr h' \<longrightarrow> outside A h h')"
  "closed h A \<longrightarrow> notified cb \<subseteq> A \<longrightarrow> (\<forall>h'. call n h cb = Inr h' \<longrightarrow> outside A h h')"
proof (induction n h r name and n h r es and n h cb rule: trigger_forEach_evts_call.induct)
  case (1 h this name)
  then show ?case by simp
next
  case (2 n h this name)
  show ?case
  proof (intro allI impI)
    fix h' assume c: "closed h A" and r: "this \<in> A" and a: "trigger (Suc n) h this name = Inr h'"
    from a obtain ob where ob: "objs h this = Some ob"
      by (cases "objs h this") auto
    have f: "forEach_evts n (h\<lparr>fired := fired h @ [(this, name)]\<rparr>) this
            (case map_e (ev ob) name of None \<Rightarrow> [] | Some evts \<Rightarrow> evts) = Inr h'"
      using a ob by simp
    have c0: "closed (h\<lparr>fired := fired h @ [(this, name)]\<rparr>) A"
      using c by simp
    have "outside A (h\<lparr>fired := fired h @ [(this, name)]\<rparr>) h'"
      by (rule 2 [OF ob, rule_format, OF c0 r f])
    with outside_fired [OF r] show "outside A h h'" by (rule outside_trans)
  qed
next
  case (3 n h this)
  then show ?case by simp
next
  case (4 n h this e es)
  show ?case
  proof (intro allI impI)
    fix h' assume c: "closed h A" and r: "this \<in> A"
      and a: "forEach_evts n h this (e # es) = Inr h'"
    from a obtain ob func h1 where ob: "objs h this = Some ob"
      and func: "events (ev ob) e = Some func"
      and cl: "call n h func = Inr h1"
      and rest: "forEach_evts n h1 this es = Inr h'"
      by (auto split: option.splits sum.splits)
    have t: "notified func \<subseteq> A"
      using closed_target [OF c r ob func] .
    have o1: "outside A h h1" by (rule 4(1) [OF ob func, rule_format, OF c t cl])
    have c1: "closed h1 A" using closed_frame [OF call_frame [OF cl] c] .
    have "outside A h1 h'" by (rule 4(2) [OF ob func cl, rule_format, OF c1 r rest])
    with o1 show "outside A h h'" by (rule outside_trans)
  qed
next
  case (5 n h k)
  show ?case by (simp add: outside_calls)
next
  case (6 n h this property)
  show ?case
  proof (intro allI impI)
    fix h' assume c: "closed h A" and t: "notified (ModelChange this property) \<subseteq> A"
      and a: "call n h (ModelChange this property) = Inr h'"
    have r: "this \<in> A" using t by simp
    from a obtain M h1 where M: "getModel h this = Inr M"
      and t1: "trigger n (putBody h this (ModelB (M\<lparr>clean := False\<rparr>))) this ''change'' = Inr h1"
      and t2: "trigger n h1 this (''change:'' @ property) = Inr h'"
      by (auto split: sum.splits)
    let ?h0 = "putBody h this (ModelB (M\<lparr>clean := False\<rparr>))"
    have c0: "closed ?h0 A" using c by simp
    have o0: "outside A h ?h0" using r by (rule outside_putBody)
    have o1: "outside A ?h0 h1" by (rule 6(1) [OF M, rule_format, OF c0 r t1])
    have c1: "closed h1 A" using closed_frame [OF trigger_frame [OF t1] c0] .
    have "outside A h1 h'" by (rule 6(2) [OF M t1, rule_format, OF c1 r t2])
    with outside_trans [OF o0 o1] show "outside A h h'" by (rule outside_trans)
  qed
next
  case (7 n h this model)
  show ?case
  proof (intro allI impI)
    fix h' assume c: "closed h A"
      and t: "notified (CollectionChange this model) \<subseteq> A"
      and a: "call n h (CollectionChange this model) = Inr h'"
    have r: "this \<in> A" using t by simp
    from a obtain C p where C: "getCollection h this = Inr C" and p: "pk h model = Inr p"
      and t1: "trigger n (putBody h this (CollectionB (C\<lparr>cleanC := False,
                    persistedC := splice (persistedC C) (indexOf (persistedC C) p) 1 []\<rparr>)))
                 this ''change'' = Inr h'"
      by (auto split: sum.splits)
    let ?h0 = "putBody h this (CollectionB (C\<lparr>cleanC := False,
                    persistedC := splice (persistedC C) (indexOf (persistedC C) p) 1 []\<rparr>))"
    have c0: "closed ?h0 A" using c by simp
    have o0: "outside A h ?h0" using r by (rule outside_putBody)
    have "outside A ?h0 h'" by (rule 7 [OF C p, rule_format, OF c0 r t1])
    with o0 show "outside A h h'" by (rule outside_trans)
  qed
next
  case (8 n h this)
  show ?case
  proof (intro allI impI)
    fix h' assume t: "notified (CollectionChangePK this) \<subseteq> A"
      and a: "call n h (CollectionChangePK this) = Inr h'"
    have r: "this \<in> A" using t by simp
    have "rebuildMap h this = Inr h'" using a by simp
    with r show "outside A h h'" by (rule rebuildMap_outside)
  qed
qed

lemma trigger_outside:
  "closed h A \<Longrightarrow> r \<in> A \<Longrightarrow> trigger n h r name = Inr h' \<Longrightarrow> outside A h h'"
  using outside_aux(1) by blast

text \<open>Subscribing and unsubscribing.\<close>

lemma entries_on_at:
  assumes "on_at h r name cb = Inr (h', i)"
  shows "entries h' x \<subseteq> entries h x \<union> (if x = r then {(i, cb)} else {})"
    and "(i, cb) \<in> entries h' r" and "name = ''change'' \<Longrightarrow> listed h' r"
  using assms
  by (auto simp: on_at_Inr entries_def listed_def Events_on_def Let_def split: if_splits)

lemma on_at_closed:
  assumes "closed h A" "notified cb \<subseteq> A" "on_at h r name cb = Inr (h', i)"
  shows "closed h' A"
  unfolding closed_def
proof (intro ballI, clarify)
  fix x e c t assume x: "x \<in> A" and e: "(e, c) \<in> entries h' x" and t: "t \<in> notified c"
  from entries_on_at(1) [OF assms(3), of x] e
  have "(e, c) \<in> entries h x \<or> c = cb" by (auto split: if_splits)
  then show "t \<in> A" using assms(1,2) x t unfolding closed_def by blast
qed

lemma off_at_Inr:
  "off_at h r name e = Inr h' \<longleftrightarrow>
     (\<exists>ob. objs h r = Some ob \<and>
           h' = h\<lparr>objs := (objs h)(r \<mapsto> ob\<lparr>ev := Events_off (ev ob) name e\<rparr>)\<rparr>)"
  by (auto simp: off_at_def split: option.splits)

lemma off_at_effect:
  assumes "off_at h r ''change'' e = Inr h'"
  shows "entries h' x \<subseteq> entries h x" "listed h' x = listed h x"
    "listed h r \<Longrightarrow> e \<notin> fst ` entries h' r"
    "getModel h' x = getModel h x" "getCollection h' x = getCollection h x"
    "fired h' = fired h"
  using assms
  by (auto simp: off_at_Inr entries_def listed_def Events_off_def getModel_def getCollection_def
      split: option.splits if_splits)

lemma off_each_effect:
  assumes "off_each h r es = Inr h'"
  shows "entries h' x \<subseteq> entries h x \<and> listed h' x = listed h x \<and>
    (listed h r \<longrightarrow> set es \<inter> fst ` entries h' r = {}) \<and>
    getModel h' x = getModel h x \<and> getCollection h' x = getCollection h x \<and>
    fired h' = fired h"
  using assms
proof (induction es arbitrary: h x)
  case Nil
  then show ?case by simp
next
  case (Cons e es)
  from Cons.prems obtain h1 where o: "off_at h r ''change'' e = Inr h1"
    and r: "off_each h1 r es = Inr h'"
    by (auto split: sum.splits)
  note a = off_at_effect [OF o]
  note b = Cons.IH [OF r, of x]
  have 1: "entries h' x \<subseteq> entries h x" using a(1) [of x] b by blast
  have 2: "listed h' x = listed h x" using a(2) [of x] b by simp
  have 3: "set (e # es) \<inter> fst ` entries h' r = {}" if l: "listed h r"
  proof -
    have l1: "listed h1 r" using l a(2) [of r] by simp
    have "e \<notin> fst ` entries h1 r" using a(3) [OF l] .
    moreover have "entries h' r \<subseteq> entries h1 r"
      using Cons.IH [OF r, of r] by blast
    ultimately have "e \<notin> fst ` entries h' r" by blast
    moreover have "set es \<inter> fst ` entries h' r = {}" using b l1 by blast
    ultimately show ?thesis by simp
  qed
  show ?case using 1 2 3 a(4,5,6) b by simp
qed


lemma listed_frame: "frame h h' \<Longrightarrow> listed h' r = listed h r"
proof (cases "objs h r")
  case None
  assume f: "frame h h'"
  then have "objs h' r = None" using None unfolding frame_def
    by (elim conjE) (erule_tac x=r in allE, simp)
  then show ?thesis using None by (simp add: listed_def)
next
  case (Some ob)
  assume f: "frame h h'"
  from frame_objs [OF f Some] show ?thesis using Some by (auto simp: listed_def)
qed

lemma listed_putBody [simp]: "listed (putBody h r b) x = listed h x"
  by (auto simp: listed_def objs_putBody split: option.splits)

lemma detach_effect:
  assumes M: "getModel h R = Inr M"
    and d: "(case (case fieldsM M f of None \<Rightarrow> Undefined | Some v \<Rightarrow> v) of
          Ref cur \<Rightarrow>
            andThen (getModel h R) (\<lambda>M.
              (case mappedEvents M f of None \<Rightarrow> Inl TypeError
               | Some es \<Rightarrow>
                   andThen (off_each h cur es) (\<lambda>h'.
                   andThen (getModel h' R) (\<lambda>M'.
                     Inr (putBody h' R
                            (ModelB (M'\<lparr>mappedEvents := (mappedEvents M')(f \<mapsto> [])\<rparr>)))))))
        | _ \<Rightarrow> Inr h) = Inr ha"
  shows "\<exists>Ma. getModel ha R = Inr Ma \<and> fieldsM Ma = fieldsM M \<and>
      (\<forall>x. entries ha x \<subseteq> entries h x) \<and> (\<forall>x. listed ha x = listed h x) \<and>
      (\<forall>c hs. fieldsM M f = Some (Ref c) \<and> mappedEvents M f = Some hs \<and> listed h c \<longrightarrow>
          set hs \<inter> fst ` entries ha c = {})"
proof (cases "\<exists>c. fieldsM M f = Some (Ref c)")
  case False
  then have "ha = h" using d by (cases "fieldsM M f"; simp split: val.splits)
  then show ?thesis using M False by auto
next
  case True
  then obtain c where c: "fieldsM M f = Some (Ref c)" by blast
  from d c M obtain hs h' M' where hs: "mappedEvents M f = Some hs"
    and o: "off_each h c hs = Inr h'" and M': "getModel h' R = Inr M'"
    and ha0: "ha = putBody h' R (ModelB (M'\<lparr>mappedEvents := (mappedEvents M')(f \<mapsto> [])\<rparr>))"
    by (auto simp: andThen_eq_Inr split: option.splits)
  have "M' = M" using off_each_effect [OF o, of R] M M' by simp
  then have ha: "ha = putBody h' R (ModelB (M\<lparr>mappedEvents := (mappedEvents M)(f \<mapsto> [])\<rparr>))"
    using ha0 by simp
  note e = off_each_effect [OF o]
  have o': "objs h' R \<noteq> None" using e [of R] M by (auto simp: getModel_Inr)
  have "getModel ha R = Inr (M\<lparr>mappedEvents := (mappedEvents M)(f \<mapsto> [])\<rparr>)"
    using o' ha by simp
  moreover have "\<forall>x. entries ha x \<subseteq> entries h x" using e ha by simp
  moreover have "\<forall>x. listed ha x = listed h x" using e ha by simp
  moreover have "\<forall>c' hs'. fieldsM M f = Some (Ref c') \<and> mappedEvents M f = Some hs' \<and> listed h c' \<longrightarrow>
          set hs' \<inter> fst ` entries ha c' = {}"
    using e [of c] c hs ha by auto
  ultimately show ?thesis by simp
qed

lemma attach_effect:
  assumes M: "getModel ha R = Inr Ma"
    and a: "(case v of
          Ref t \<Rightarrow>
            andThen (getModel ha R) (\<lambda>M.
              (case mappedEvents M f of None \<Rightarrow> Inl TypeError
               | Some es \<Rightarrow>
                   andThen (on_at ha t ''change'' (ModelChange R f)) (\<lambda>(h', i).
                   andThen (getModel h' R) (\<lambda>M'.
                     Inr (putBody h' R
                            (ModelB (M'\<lparr>mappedEvents := (mappedEvents M')(f \<mapsto> es @ [i])\<rparr>)))))))
        | _ \<Rightarrow> Inr ha) = Inr hb"
  shows "\<exists>Mb i. getModel hb R = Inr Mb \<and> fieldsM Mb = fieldsM Ma \<and>
      (\<forall>x. entries hb x \<subseteq> entries ha x \<union> (if v = Ref x then {(i, ModelChange R f)} else {})) \<and>
      (\<forall>t. v = Ref t \<longrightarrow> listed hb t \<and> (\<exists>hs. mappedEvents Mb f = Some hs \<and> i \<in> set hs))"
proof (cases "\<exists>t. v = Ref t")
  case False
  then have "hb = ha" using a by (cases v) simp_all
  then show ?thesis using M False by auto
next
  case True
  then obtain t where t: "v = Ref t" by blast
  from a t M obtain es h' i M' where es: "mappedEvents Ma f = Some es"
    and on: "on_at ha t ''change'' (ModelChange R f) = Inr (h', i)"
    and M': "getModel h' R = Inr M'"
    and hb0: "hb = putBody h' R (ModelB (M'\<lparr>mappedEvents := (mappedEvents M')(f \<mapsto> es @ [i])\<rparr>))"
    by (auto simp: andThen_eq_Inr split: option.splits)
  have "M' = Ma" using on M M' by simp
  then have hb: "hb = putBody h' R (ModelB (Ma\<lparr>mappedEvents := (mappedEvents Ma)(f \<mapsto> es @ [i])\<rparr>))"
    using hb0 by simp
  note e = entries_on_at [OF on]
  have o': "objs h' R \<noteq> None" using on M by (auto simp: getModel_Inr on_at_Inr)
  have 1: "getModel hb R = Inr (Ma\<lparr>mappedEvents := (mappedEvents Ma)(f \<mapsto> es @ [i])\<rparr>)"
    using o' hb by simp
  have 2: "\<forall>x. entries hb x \<subseteq> entries ha x \<union> (if v = Ref x then {(i, ModelChange R f)} else {})"
  proof
    fix x show "entries hb x \<subseteq> entries ha x \<union> (if v = Ref x then {(i, ModelChange R f)} else {})"
      using e(1) [of x] hb t by (auto split: if_splits)
  qed
  have 3: "listed hb t" using e(3) hb by simp
  show ?thesis
    apply (rule exI [of _ "Ma\<lparr>mappedEvents := (mappedEvents Ma)(f \<mapsto> es @ [i])\<rparr>"])
    apply (rule exI [of _ i])
    using 1 2 3 t by simp
qed

lemma Model_set_effect:
  assumes "Model_set n h R f v = Inr h'"
  shows "\<exists>M M' i. getModel h R = Inr M \<and> getModel h' R = Inr M' \<and> fieldsM M' f = Some v \<and>
      (\<forall>x. entries h' x \<subseteq> entries h x \<union> (if v = Ref x then {(i, ModelChange R f)} else {})) \<and>
      (\<forall>t. v = Ref t \<longrightarrow> listed h' t \<and> (\<exists>hs. mappedEvents M' f = Some hs \<and> i \<in> set hs)) \<and>
      (\<forall>c hs x. fieldsM M f = Some (Ref c) \<and> mappedEvents M f = Some hs \<and> listed h c \<and>
           x \<in> entries h' c \<longrightarrow> fst x \<notin> set hs \<or> (v = Ref c \<and> x = (i, ModelChange R f)))"
proof -
  from assms obtain M ha hb Mb hc where M: "getModel h R = Inr M"
    and d: "(case (case fieldsM M f of None \<Rightarrow> Undefined | Some v \<Rightarrow> v) of
          Ref cur \<Rightarrow>
            andThen (getModel h R) (\<lambda>M.
              (case mappedEvents M f of None \<Rightarrow> Inl TypeError
               | Some es \<Rightarrow>
                   andThen (off_each h cur es) (\<lambda>h'.
                   andThen (getModel h' R) (\<lambda>M'.
                     Inr (putBody h' R
                            (ModelB (M'\<lparr>mappedEvents := (mappedEvents M')(f \<mapsto> [])\<rparr>)))))))
        | _ \<Rightarrow> Inr h) = Inr ha"
    and a: "(case v of
          Ref t \<Rightarrow>
            andThen (getModel ha R) (\<lambda>M.
              (case mappedEvents M f of None \<Rightarrow> Inl TypeError
               | Some es \<Rightarrow>
                   andThen (on_at ha t ''change'' (ModelChange R f)) (\<lambda>(h', i).
                   andThen (getModel h' R) (\<lambda>M'.
                     Inr (putBody h' R
                            (ModelB (M'\<lparr>mappedEvents := (mappedEvents M')(f \<mapsto> es @ [i])\<rparr>)))))))
        | _ \<Rightarrow> Inr ha) = Inr hb"
    and Mb: "getModel hb R = Inr Mb"
    and t1: "trigger n (putBody hb R (ModelB (Mb\<lparr>fieldsM := (fieldsM Mb)(f \<mapsto> v),
                                              clean := False\<rparr>))) R ''change'' = Inr hc"
    and t2: "trigger n hc R (''change:'' @ f) = Inr h'"
    unfolding Model_set_def Model_get_def
    by (simp add: andThen_eq_Inr del: trigger.simps) blast
  from detach_effect [OF M d] obtain Ma where Ma: "getModel ha R = Inr Ma"
    and da: "\<forall>x. entries ha x \<subseteq> entries h x" "\<forall>x. listed ha x = listed h x"
      "\<forall>c hs. fieldsM M f = Some (Ref c) \<and> mappedEvents M f = Some hs \<and> listed h c \<longrightarrow>
          set hs \<inter> fst ` entries ha c = {}"
    by blast
  from attach_effect [OF Ma a] Mb obtain i where
    ab: "\<forall>x. entries hb x \<subseteq> entries ha x \<union> (if v = Ref x then {(i, ModelChange R f)} else {})"
      "\<forall>t. v = Ref t \<longrightarrow> listed hb t \<and> (\<exists>hs. mappedEvents Mb f = Some hs \<and> i \<in> set hs)"
    by auto
  let ?M = "Mb\<lparr>fieldsM := (fieldsM Mb)(f \<mapsto> v), clean := False\<rparr>"
  let ?h = "putBody hb R (ModelB ?M)"
  have fr: "frame ?h h'" using trigger_frame [OF t1] trigger_frame [OF t2] by (rule frame_trans)
  have oR: "objs hb R \<noteq> None" using Mb by (rule getModel_objs)
  have "getModel ?h R = Inr ?M" using oR by simp
  from frame_getModel [OF fr this] obtain M' where M': "getModel h' R = Inr M'"
    "fieldsM M' = fieldsM ?M" "mappedEvents M' = mappedEvents ?M" by blast
  have en: "entries h' = entries hb" using entries_frame [OF fr] by simp
  have li: "\<And>x. listed h' x = listed hb x" using listed_frame [OF fr] by simp
  have 1: "fieldsM M' f = Some v" using M'(2) by simp
  have 2: "\<forall>x. entries h' x \<subseteq> entries h x \<union> (if v = Ref x then {(i, ModelChange R f)} else {})"
    unfolding en using ab(1) da(1) by blast
  have 3: "\<forall>t. v = Ref t \<longrightarrow> listed h' t \<and> (\<exists>hs. mappedEvents M' f = Some hs \<and> i \<in> set hs)"
    using ab(2) li M'(3) by simp
  have 4: "\<forall>c hs x. fieldsM M f = Some (Ref c) \<and> mappedEvents M f = Some hs \<and> listed h c \<and>
           x \<in> entries h' c \<longrightarrow> fst x \<notin> set hs \<or> (v = Ref c \<and> x = (i, ModelChange R f))"
  proof (intro allI impI)
    fix c hs x
    assume p: "fieldsM M f = Some (Ref c) \<and> mappedEvents M f = Some hs \<and> listed h c \<and>
           x \<in> entries h' c"
    then have "set hs \<inter> fst ` entries ha c = {}" using da(3) by blast
    moreover have "x \<in> entries ha c \<or> (v = Ref c \<and> x = (i, ModelChange R f))"
      using p ab(1) unfolding en by (auto split: if_splits)
    ultimately show "fst x \<notin> set hs \<or> (v = Ref c \<and> x = (i, ModelChange R f))" by auto
  qed
  show ?thesis using M M'(1) 1 2 3 4 by blast
qed


lemma detached_entries:
  assumes s1: "Model_set n1 h R f (Ref S) = Inr h1" and s2: "Model_set n2 h1 R f v = Inr h2"
    and nv: "v \<noteq> Ref r"
  shows "entries h2 r \<subseteq> entries h r"
proof -
  from Model_set_effect [OF s1] obtain M1 i hs where M1: "getModel h1 R = Inr M1"
    "fieldsM M1 f = Some (Ref S)" "mappedEvents M1 f = Some hs" "i \<in> set hs" "listed h1 S"
    and e1: "\<forall>x. entries h1 x \<subseteq> entries h x \<union> (if Ref S = Ref x then {(i, ModelChange R f)} else {})"
    by blast
  from Model_set_effect [OF s2] M1(1) obtain j where
    e2: "\<forall>x. entries h2 x \<subseteq> entries h1 x \<union> (if v = Ref x then {(j, ModelChange R f)} else {})"
    and d2: "\<forall>c hs x. fieldsM M1 f = Some (Ref c) \<and> mappedEvents M1 f = Some hs \<and> listed h1 c \<and>
           x \<in> entries h2 c \<longrightarrow> fst x \<notin> set hs \<or> (v = Ref c \<and> x = (j, ModelChange R f))"
    by auto
  show ?thesis
  proof
    fix x assume x: "x \<in> entries h2 r"
    have x1: "x \<in> entries h1 r" using e2 x nv by (auto split: if_splits)
    show "x \<in> entries h r"
    proof (cases "r = S")
      case True
      have "fst x \<notin> set hs \<or> (v = Ref S \<and> x = (j, ModelChange R f))"
        using d2 M1 x True by blast
      then have "x \<noteq> (i, ModelChange R f)" using nv True M1(4) by auto
      then show ?thesis using e1 x1 by (auto split: if_splits)
    next
      case False
      then show ?thesis using e1 x1 by (auto split: if_splits)
    qed
  qed
qed

lemma detached_closed:
  assumes c: "closed h A" and v: "\<forall>T. v = Ref T \<longrightarrow> T \<notin> A"
    and s1: "Model_set n1 h R f (Ref S) = Inr h1" and s2: "Model_set n2 h1 R f v = Inr h2"
  shows "closed h2 A"
proof (rule closed_sub [OF c], rule ballI)
  fix r assume "r \<in> A"
  then have "v \<noteq> Ref r" using v by blast
  with s1 s2 show "entries h2 r \<subseteq> entries h r" by (rule detached_entries)
qed

lemma observes_entries:
  assumes "observes h R f S"
  shows "\<exists>e. (e, ModelChange R f) \<in> entries h S"
proof -
  from assms obtain ob where ob: "objs h S = Some ob"
    by (cases "objs h S") (auto simp: observes_def subscribers_def)
  then have "Some (ModelChange R f) \<in>
      events (ev ob) ` set (case map_e (ev ob) ''change'' of None \<Rightarrow> [] | Some l \<Rightarrow> l)"
    using assms by (simp add: observes_def subscribers_def)
  then obtain e where "Some (ModelChange R f) = events (ev ob) e" by (rule imageE)
  then have "events (ev ob) e = Some (ModelChange R f)" by simp
  then show ?thesis using ob by (auto simp: entries_def)
qed

lemma Model_persist_entries:
  assumes "Model_persist n h R = Inr (h', b)"
  shows "entries h' = entries h"
proof -
  from assms obtain M where M: "getModel h R = Inr M"
    by (auto simp: Model_persist_def andThen_eq_Inr)
  show ?thesis
  proof (cases "clean M")
    case True
    then show ?thesis using assms M by (simp add: Model_persist_def)
  next
    case False
    then have "trigger n (putBody h R (ModelB (M\<lparr>clean := True,
        persisted := persisted M ++ fieldsM M\<rparr>))) R ''persist'' = Inr h'"
      using assms M by (auto simp: Model_persist_def andThen_eq_Inr simp del: trigger.simps)
    from entries_frame [OF trigger_frame [OF this]] show ?thesis by simp
  qed
qed

lemma Model_persist_closed:
  assumes "closed h A" "Model_persist n h R = Inr (h', b)"
  shows "closed h' A"
proof -
  from assms(2) obtain M where M: "getModel h R = Inr M"
    by (auto simp: Model_persist_def andThen_eq_Inr)
  show ?thesis
  proof (cases "clean M")
    case True
    then show ?thesis using assms M by (simp add: Model_persist_def)
  next
    case False
    then have "trigger n (putBody h R (ModelB (M\<lparr>clean := True,
        persisted := persisted M ++ fieldsM M\<rparr>))) R ''persist'' = Inr h'"
      using assms(2) M by (auto simp: Model_persist_def andThen_eq_Inr simp del: trigger.simps)
    from closed_frame [OF trigger_frame [OF this]] assms(1) show ?thesis by simp
  qed
qed

lemma untouched_refl [simp]: "untouched h h R"
  by (simp add: untouched_def)

lemma untouched_trans: "untouched a b R \<Longrightarrow> untouched b c R \<Longrightarrow> untouched a c R"
  unfolding untouched_def
  apply (elim conjE exE)
  subgoal for xs ys
    apply (intro conjI)
     apply simp
    apply (rule exI [of _ "xs @ ys"])
    apply auto
    done
  done

lemma outside_untouched: "outside A h h' \<Longrightarrow> R \<notin> A \<Longrightarrow> untouched h h' R"
  unfolding outside_def untouched_def
  by (auto simp: getModel_def)

lemma untouched_pre:
  "getModel h' R = getModel h R \<Longrightarrow> fired h' = fired h \<Longrightarrow> untouched h h' R"
  by (simp add: untouched_def)

lemma Collection_add_untouched:
  assumes c: "closed h A" and S: "S \<in> A" and R: "R \<notin> A"
    and add: "Collection_add n h S m = Inr h'"
  shows "untouched h h' R \<and> closed h' A"
proof -
  from add obtain C h1 ch h2 chpk b hE where
    C: "getCollection h S = Inr C"
    and on1: "on_at (putBody h S (CollectionB (C\<lparr>models := models C @ [m]\<rparr>))) m ''change''
               (CollectionChange S m) = Inr (h1, ch)"
    and on2: "on_at h1 m ''change:pk'' (CollectionChangePK S) = Inr (h2, chpk)"
    and t1: "trigger n (putBody h2 S b) S ''change'' = Inr hE"
    and t2: "trigger n hE S ''append'' = Inr h'"
    by (auto simp: Collection_add_def andThen_eq_Inr simp del: trigger.simps)
  have ne: "R \<noteq> S" using S R by blast
  let ?h0 = "putBody h S (CollectionB (C\<lparr>models := models C @ [m]\<rparr>))"
  have c0: "closed ?h0 A" using c by simp
  have c1: "closed h1 A" using c0 _ on1 by (rule on_at_closed) (simp add: S)
  have c2: "closed h2 A" using c1 _ on2 by (rule on_at_closed) (simp add: S)
  have c3: "closed (putBody h2 S b) A" using c2 by simp
  have g: "getModel (putBody h2 S b) R = getModel h R" "fired (putBody h2 S b) = fired h"
    using on1 on2 ne by simp_all
  have u0: "untouched h (putBody h2 S b) R" using g by (rule untouched_pre)
  have o1: "outside A (putBody h2 S b) hE" using c3 S t1 by (rule trigger_outside)
  have cE: "closed hE A" using closed_frame [OF trigger_frame [OF t1] c3] .
  have o2: "outside A hE h'" using cE S t2 by (rule trigger_outside)
  have "untouched (putBody h2 S b) h' R"
    using outside_trans [OF o1 o2] R by (rule outside_untouched)
  with u0 have "untouched h h' R" by (rule untouched_trans)
  moreover have "closed h' A" using closed_frame [OF trigger_frame [OF t2] cE] .
  ultimately show ?thesis ..
qed

lemma Collection_remove_untouched:
  assumes c: "closed h A" and S: "S \<in> A" and R: "R \<notin> A"
    and rm: "Collection_remove n h S m = Inr h'"
  shows "untouched h h' R \<and> closed h' A"
proof -
  from rm obtain b h1 h2 where
    r: "rebuildMap (putBody h S b) S = Inr h1"
    and t1: "trigger n h1 S ''change'' = Inr h2"
    and t2: "trigger n h2 S ''remove'' = Inr h'"
    by (auto simp: Collection_remove_def andThen_eq_Inr simp del: trigger.simps)
  have o0: "outside A h (putBody h S b)" using S by (rule outside_putBody)
  have o1: "outside A (putBody h S b) h1" using S r by (rule rebuildMap_outside)
  have c1: "closed h1 A" using closed_frame [OF rebuildMap_frame [OF r]] c by simp
  have o2: "outside A h1 h2" using c1 S t1 by (rule trigger_outside)
  have c2: "closed h2 A" using closed_frame [OF trigger_frame [OF t1] c1] .
  have o3: "outside A h2 h'" using c2 S t2 by (rule trigger_outside)
  have "outside A h h'" using o0 o1 o2 o3 by (blast intro: outside_trans)
  then have "untouched h h' R" using R by (rule outside_untouched)
  moreover have "closed h' A" using closed_frame [OF trigger_frame [OF t2] c2] .
  ultimately show ?thesis ..
qed

lemma Collection_moveAt_untouched:
  assumes c: "closed h A" and S: "S \<in> A" and R: "R \<notin> A"
    and mv: "Collection_moveAt n h S i offset = Inr h'"
  shows "untouched h h' R \<and> closed h' A"
proof -
  from mv obtain b h1 where
    r: "rebuildMap (putBody h S b) S = Inr h1"
    and t1: "trigger n h1 S ''change'' = Inr h'"
    by (auto simp: Collection_moveAt_def Let_def andThen_eq_Inr split: option.splits
        simp del: trigger.simps)
  have o0: "outside A h (putBody h S b)" using S by (rule outside_putBody)
  have o1: "outside A (putBody h S b) h1" using S r by (rule rebuildMap_outside)
  have c1: "closed h1 A" using closed_frame [OF rebuildMap_frame [OF r]] c by simp
  have o2: "outside A h1 h'" using c1 S t1 by (rule trigger_outside)
  have "outside A h h'" using o0 o1 o2 by (blast intro: outside_trans)
  then have "untouched h h' R" using R by (rule outside_untouched)
  moreover have "closed h' A" using closed_frame [OF trigger_frame [OF t1] c1] .
  ultimately show ?thesis ..
qed

lemma mutates_untouched:
  assumes "mutates S h h'" "closed h A" "S \<in> A" "R \<notin> A"
  shows "untouched h h' R \<and> closed h' A"
  using assms
proof (induction rule: mutates.induct)
  case (mutates_refl h)
  then show ?case by simp
next
  case (mutates_add h h1 n m h2)
  then have a: "untouched h h1 R" "closed h1 A" by simp_all
  from Collection_add_untouched [OF a(2) mutates_add.prems(2,3) mutates_add.hyps(2)] a(1)
  show ?case by (blast intro: untouched_trans)
next
  case (mutates_remove h h1 n m h2)
  then have a: "untouched h h1 R" "closed h1 A" by simp_all
  from Collection_remove_untouched [OF a(2) mutates_remove.prems(2,3) mutates_remove.hyps(2)] a(1)
  show ?case by (blast intro: untouched_trans)
next
  case (mutates_removeAt h h1 n i h2)
  then have a: "untouched h h1 R" "closed h1 A" by simp_all
  from mutates_removeAt.hyps(2) obtain m where "Collection_remove n h1 S m = Inr h2"
    by (auto simp: Collection_removeAt_def andThen_eq_Inr split: option.splits)
  from Collection_remove_untouched [OF a(2) mutates_removeAt.prems(2,3) this] a(1)
  show ?case by (blast intro: untouched_trans)
next
  case (mutates_removeBy h h1 n p h2)
  then have a: "untouched h h1 R" "closed h1 A" by simp_all
  from mutates_removeBy.hyps(2) obtain m where "Collection_remove n h1 S m = Inr h2"
    by (auto simp: Collection_removeBy_def andThen_eq_Inr split: option.splits)
  from Collection_remove_untouched [OF a(2) mutates_removeBy.prems(2,3) this] a(1)
  show ?case by (blast intro: untouched_trans)
next
  case (mutates_move h h1 n m offset h2)
  then have a: "untouched h h1 R" "closed h1 A" by simp_all
  from mutates_move.hyps(2) obtain i where "Collection_moveAt n h1 S i offset = Inr h2"
    by (auto simp: Collection_move_def andThen_eq_Inr)
  from Collection_moveAt_untouched [OF a(2) mutates_move.prems(2,3) this] a(1)
  show ?case by (blast intro: untouched_trans)
next
  case (mutates_moveAt h h1 n i offset h2)
  then have a: "untouched h h1 R" "closed h1 A" by simp_all
  from Collection_moveAt_untouched [OF a(2) mutates_moveAt.prems(2,3) mutates_moveAt.hyps(2)] a(1)
  show ?case by (blast intro: untouched_trans)
next
  case (mutates_moveBy h h1 n p offset h2)
  then have a: "untouched h h1 R" "closed h1 A" by simp_all
  from mutates_moveBy.hyps(2) obtain i where "Collection_moveAt n h1 S i offset = Inr h2"
    by (auto simp: Collection_moveBy_def andThen_eq_Inr split: option.splits)
  from Collection_moveAt_untouched [OF a(2) mutates_moveBy.prems(2,3) this] a(1)
  show ?case by (blast intro: untouched_trans)
qed

text \<open>
  C3. Let \<open>A\<close> be a set of objects that is closed under notification, with the collection
  \<open>S\<close> in it and the record \<open>R\<close> not in it: no subscription leads from \<open>S\<close> to \<open>R\<close>, directly
  or through other objects. When the field \<open>f\<close> of \<open>R\<close> is set to \<open>S\<close>, then to a value that is
  not an object of \<open>A\<close> (\<^verbatim>\<open>undefined\<close>, a plain value, an entity outside \<open>A\<close>), and \<open>R\<close> is
  persisted, the callback of \<open>R\<close> for \<open>f\<close> is no longer subscribed to \<^verbatim>\<open>change\<close> on \<open>S\<close>, and
  every sequence of \<^verbatim>\<open>add\<close>, \<^verbatim>\<open>remove\<close> and \<^verbatim>\<open>move\<close> calls on \<open>S\<close> that return leaves the
  fields, the snapshot and the flag \<^verbatim>\<open>clean\<close> of \<open>R\<close> as they were and triggers no event
  on \<open>R\<close>.
\<close>

theorem detach_unsubscribes:
  assumes "closed h A" "S \<in> A" "R \<notin> A" "\<forall>T. v = Ref T \<longrightarrow> T \<notin> A"
    and "Model_set n1 h R f (Ref S) = Inr h1" "Model_set n2 h1 R f v = Inr h2"
    and "Model_persist n3 h2 R = Inr (h3, b)" "mutates S h3 h4"
  shows "\<not> observes h3 R f S \<and> getModel h4 R = getModel h3 R \<and>
         (\<exists>xs. fired h4 = fired h3 @ xs \<and> R \<notin> fst ` set xs)"
proof -
  have c2: "closed h2 A" using assms(1,4,5,6) by (rule detached_closed)
  then have c3: "closed h3 A" using assms(7) by (rule Model_persist_closed)
  have "\<not> observes h3 R f S"
  proof
    assume "observes h3 R f S"
    then obtain e where "(e, ModelChange R f) \<in> entries h3 S" using observes_entries by blast
    then have "notified (ModelChange R f) \<subseteq> A" using c3 assms(2) unfolding closed_def by blast
    then show False using assms(3) by simp
  qed
  then show ?thesis using mutates_untouched [OF assms(8) c3 assms(2,3)] by (simp add: untouched_def)
qed

text \<open>
  Without the condition on \<open>A\<close> the record can still be notified: the record 1 holds the
  collection 0 in \<^verbatim>\<open>foos\<close> and in \<^verbatim>\<open>also\<close>. After \<^verbatim>\<open>foos\<close> is set to \<^verbatim>\<open>undefined\<close> and the
  record is persisted, adding the record 2 to the collection marks the record 1 dirty
  and triggers \<^verbatim>\<open>change\<close> on it.
\<close>

theorem second_field_still_observes:
  "\<not> isl (Model_set 1 both0 1 ''foos'' (Ref 0)) \<and>
   \<not> isl (Model_set 1 both1 1 ''also'' (Ref 0)) \<and>
   \<not> isl (Model_set 1 both2 1 ''foos'' Undefined) \<and>
   map_sum id snd (Model_persist 1 both3 1) = Inr True \<and>
   Model_get both4 1 ''foos'' = Inr Undefined \<and>
   map_sum id clean (getModel both4 1) = Inr True \<and>
   \<not> isl (Collection_add 2 both4 0 2) \<and>
   map_sum id clean (getModel both5 1) = Inr False \<and>
   drop (length (fired both4)) (fired both5) =
     [(0, ''change''), (1, ''change''), (1, ''change:also''), (0, ''append'')]"
  by code_simp

lemma detach_runs:
  "\<not> isl (Model_set 1 walk0 4 ''bar'' (Ref 5))" "\<not> isl (Model_set 1 detach1 4 ''bar'' Undefined)"
  "\<not> isl (Model_persist 1 detach2 4)" "\<not> isl (Collection_add 1 detach3 5 0)"
  "observes detach1 4 ''bar'' 5"
  "map_sum id clean (getModel detach4 4) = Inr True"
  "drop (length (fired detach3)) (fired detach4) = [(5, ''change''), (5, ''append'')]"
  by code_simp+

lemma walk0_entries: "entries walk0 5 = {}"
  by (simp add: walk0_def Collection_new_def Let_def exampleHeap_def entries_def emptyEvents_def)

theorem detach_unsubscribes_witness:
  "observes detach1 4 ''bar'' 5 \<and> \<not> observes detach3 4 ''bar'' 5 \<and>
   mutates 5 detach3 detach4 \<and> getModel detach4 4 = getModel detach3 4 \<and>
   map_sum id clean (getModel detach4 4) = Inr True \<and>
   (\<exists>xs. fired detach4 = fired detach3 @ xs \<and> 4 \<notin> fst ` set xs) \<and>
   drop (length (fired detach3)) (fired detach4) = [(5, ''change''), (5, ''append'')]"
proof -
  have r1: "Model_set 1 walk0 4 ''bar'' (Ref 5) = Inr detach1"
    unfolding detach1_def by (rule Inr_projr [OF detach_runs(1)])
  have r2: "Model_set 1 detach1 4 ''bar'' Undefined = Inr detach2"
    unfolding detach2_def by (rule Inr_projr [OF detach_runs(2)])
  have r3: "Model_persist 1 detach2 4 = Inr (detach3, snd (projr (Model_persist 1 detach2 4)))"
    unfolding detach3_def using Inr_projr [OF detach_runs(3)] by simp
  have r4: "Collection_add 1 detach3 5 0 = Inr detach4"
    unfolding detach4_def by (rule Inr_projr [OF detach_runs(4)])
  have m: "mutates 5 detach3 detach4" by (rule mutates_add [OF mutates_refl r4])
  have c: "closed walk0 {5}" by (simp add: closed_def walk0_entries)
  have "\<not> observes detach3 4 ''bar'' 5 \<and> getModel detach4 4 = getModel detach3 4 \<and>
         (\<exists>xs. fired detach4 = fired detach3 @ xs \<and> 4 \<notin> fst ` set xs)"
    by (rule detach_unsubscribes [OF c _ _ _ r1 r2 r3 m]) simp_all
  then show ?thesis using m detach_runs(5,6,7) by blast
qed

end
